theory Spec2Isabelle
  imports
    Complex_Main
    "HOL-Library.Char_ord"
    "HOL-Library.List_Lexorder"
begin

section \<open>Values shared by the analyzer's operations\<close>

text \<open>
  The analyzer exchanges JSON documents with the disk and with the classification backend.
  \<open>json.load\<close> and \<open>json.loads\<close> return Python values of exactly these shapes; an object
  is kept as an association list (its keys in document order, each key once). Python
  strings are kept as their UTF-8 bytes, whose bytewise order is the order Python gives
  \<open>str\<close>; no operation modelled here looks into a number.
\<close>

datatype json =
    JNull
  | JBool bool
  | JInt int
  | JFloat rat
  | JStr string
  | JArr "json list"
  | JObj "(string \<times> json) list"

type_synonym pydict = "(string \<times> json) list"

text \<open>The exceptions that the modelled operations can let escape.\<close>

datatype exc = KeyError | TypeError | ValueError | OverflowError

text \<open>
  The options of \<open>load_config\<close> that the modelled operations read. The defaults are those
  of \<open>default_config\<close>.
\<close>

record config =
  alert_threshold :: string
  always_send_summary :: bool
  max_requests_per_hour :: int
  max_requests_per_day :: int
  min_interval_minutes :: int
  max_retries :: int
  retry_delay_seconds :: int

definition default_config :: config where
  "default_config =
     \<lparr>alert_threshold = ''medium'', always_send_summary = False,
      max_requests_per_hour = 10, max_requests_per_day = 50,
      min_interval_minutes = 5, max_retries = 3, retry_delay_seconds = 30\<rparr>"

text \<open>\<open>d.get(key, default)\<close> on a dictionary with string keys.\<close>

definition dict_get :: "pydict \<Rightarrow> string \<Rightarrow> json \<Rightarrow> json" where
  "dict_get d k dflt = (case map_of d k of Some v \<Rightarrow> v | None \<Rightarrow> dflt)"

section \<open>The alert gate: \<open>should_send_alert\<close>\<close>

definition severity_levels :: "(string \<times> int) list" where
  "severity_levels =
     [(''none'', 0), (''low'', 1), (''medium'', 2), (''high'', 3),
      (''critical'', 4), (''error'', 4)]"

text \<open>
  \<open>severity_levels.get(key, default)\<close> with a key that is any JSON value: a list or an
  object is unhashable and the lookup raises \<open>TypeError\<close>; a value that is not a string
  equals none of the keys.
\<close>

fun levels_get :: "json \<Rightarrow> int \<Rightarrow> exc + int" where
  "levels_get (JStr s) dflt =
     Inr (case map_of severity_levels s of Some r \<Rightarrow> r | None \<Rightarrow> dflt)"
| "levels_get (JArr xs) dflt = Inl TypeError"
| "levels_get (JObj kvs) dflt = Inl TypeError"
| "levels_get v dflt = Inr dflt"

definition should_send_alert :: "config \<Rightarrow> pydict \<Rightarrow> exc + bool" where
  "should_send_alert cfg analysis =
     (if always_send_summary cfg then Inr True
      else
        let severity = dict_get analysis ''severity'' (JStr ''none'');
            threshold = alert_threshold cfg
        in case levels_get severity 0 of
             Inl e \<Rightarrow> Inl e
           | Inr sev_rank \<Rightarrow>
               (case levels_get (JStr threshold) 2 of
                  Inl e \<Rightarrow> Inl e
                | Inr thr_rank \<Rightarrow> Inr (sev_rank \<ge> thr_rank)))"

text \<open>
  The ordering as the specification words it: the six named severities with their ranks,
  every other string ranked 0.
\<close>

definition severity_rank :: "string \<Rightarrow> int" where
  "severity_rank s =
     (if s = ''none'' then 0
      else if s = ''low'' then 1
      else if s = ''medium'' then 2
      else if s = ''high'' then 3
      else if s = ''critical'' then 4
      else if s = ''error'' then 4
      else 0)"

definition known_severity :: "string \<Rightarrow> bool" where
  "known_severity s \<longleftrightarrow>
     s \<in> {''none'', ''low'', ''medium'', ''high'', ''critical'', ''error''}"

text \<open>The severity string a triage result carries: absent means \<open>''none''\<close>.\<close>

definition severity_of :: "pydict \<Rightarrow> json" where
  "severity_of analysis = dict_get analysis ''severity'' (JStr ''none'')"

section \<open>The standard-library operations the rate limiter relies on\<close>

subsection \<open>Decimal text\<close>

text \<open>
  \<open>str(n)\<close> for a natural number, and the \<open>%0wd\<close> conversion that \<open>isoformat\<close> uses:
  the decimal digits, padded on the left with zeros up to width \<open>w\<close> and never cut.
\<close>

definition digit_char :: "nat \<Rightarrow> char" where
  "digit_char n = ''0123456789'' ! n"

function str_nat :: "nat \<Rightarrow> string" where
  "str_nat n =
     (if n < 10 then [digit_char n] else str_nat (n div 10) @ [digit_char (n mod 10)])"
  by pat_completeness auto
termination
  by (relation "measure id") auto

declare str_nat.simps [simp del]

definition str_int :: "int \<Rightarrow> string" where
  "str_int i = (if i < 0 then ''-'' @ str_nat (nat (- i)) else str_nat (nat i))"

definition zfill :: "nat \<Rightarrow> string \<Rightarrow> string" where
  "zfill w s = replicate (w - length s) CHR ''0'' @ s"

definition fmt_d :: "nat \<Rightarrow> nat \<Rightarrow> string" where
  "fmt_d w n = zfill w (str_nat n)"

subsection \<open>Naive datetimes\<close>

text \<open>
  A \<open>datetime\<close> without time zone, as \<open>datetime.now()\<close> returns it: seven fields. The
  calendar arithmetic is that of the \<open>datetime\<close> module: the proleptic Gregorian ordinal
  of a date (\<open>_ymd2ord\<close>, day 1 is 0001-01-01) and its inverse (\<open>_ord2ymd\<close>). Index 0 of
  the two month tables is a placeholder that is never read.
\<close>

record datetime =
  year :: nat
  month :: nat
  day :: nat
  hour :: nat
  minute :: nat
  second :: nat
  microsecond :: nat

definition is_leap :: "nat \<Rightarrow> bool" where
  "is_leap y \<longleftrightarrow> y mod 4 = 0 \<and> (y mod 100 \<noteq> 0 \<or> y mod 400 = 0)"

definition days_before_year :: "nat \<Rightarrow> nat" where
  "days_before_year y = (let p = y - 1 in p * 365 + p div 4 - p div 100 + p div 400)"

definition DAYS_IN_MONTH :: "nat list" where
  "DAYS_IN_MONTH = [0, 31, 28, 31, 30, 31, 30, 31, 31, 30, 31, 30, 31]"

definition DAYS_BEFORE_MONTH :: "nat list" where
  "DAYS_BEFORE_MONTH = [0, 0, 31, 59, 90, 120, 151, 181, 212, 243, 273, 304, 334]"

definition days_in_month :: "nat \<Rightarrow> nat \<Rightarrow> nat" where
  "days_in_month y m = (if m = 2 \<and> is_leap y then 29 else DAYS_IN_MONTH ! m)"

definition days_before_month :: "nat \<Rightarrow> nat \<Rightarrow> nat" where
  "days_before_month y m = DAYS_BEFORE_MONTH ! m + (if m > 2 \<and> is_leap y then 1 else 0)"

definition ymd2ord :: "nat \<Rightarrow> nat \<Rightarrow> nat \<Rightarrow> nat" where
  "ymd2ord y m d = days_before_year y + days_before_month y m + d"

text \<open>
  The last lines of \<open>_ord2ymd\<close>: month and day of the \<open>n\<close>-th day of a year, counted
  from 0, from an estimate of the month that is corrected when it is one too high.
\<close>

definition month_day :: "bool \<Rightarrow> nat \<Rightarrow> nat \<times> nat" where
  "month_day leapyear n =
     (let m = (n + 50) div 32;
          preceding = DAYS_BEFORE_MONTH ! m + (if m > 2 \<and> leapyear then 1 else 0)
      in if preceding > n
         then
           let m = m - 1;
               preceding =
                 preceding - (DAYS_IN_MONTH ! m + (if m = 2 \<and> leapyear then 1 else 0))
           in (m, n - preceding + 1)
         else (m, n - preceding + 1))"

definition ord2ymd :: "nat \<Rightarrow> nat \<times> nat \<times> nat" where
  "ord2ymd ordinal =
     (let n = ordinal - 1;
          n400 = n div 146097; n = n mod 146097;
          y = n400 * 400 + 1;
          n100 = n div 36524; n = n mod 36524;
          n4 = n div 1461; n = n mod 1461;
          n1 = n div 365; n = n mod 365;
          y = y + n100 * 100 + n4 * 4 + n1
      in if n1 = 4 \<or> n100 = 4 then (y - 1, 12, 31)
         else
           let leapyear = (n1 = 3 \<and> (n4 \<noteq> 24 \<or> n100 = 3))
           in case month_day leapyear n of (m, d) \<Rightarrow> (y, m, d))"

definition valid_date :: "nat \<Rightarrow> nat \<Rightarrow> nat \<Rightarrow> bool" where
  "valid_date y m d \<longleftrightarrow>
     1 \<le> y \<and> y \<le> 9999 \<and> 1 \<le> m \<and> m \<le> 12 \<and> 1 \<le> d \<and> d \<le> days_in_month y m"

definition valid_datetime :: "datetime \<Rightarrow> bool" where
  "valid_datetime dt \<longleftrightarrow>
     valid_date (year dt) (month dt) (day dt) \<and>
     hour dt < 24 \<and> minute dt < 60 \<and> second dt < 60 \<and> microsecond dt < 1000000"

definition MAXORDINAL :: nat where
  "MAXORDINAL = 3652059"

text \<open>
  A \<open>timedelta\<close> is a whole number of microseconds. \<open>to_us\<close> places a datetime on the
  line of microseconds that the module's arithmetic works on (ordinal days, then the time
  of day). Subtracting a timedelta raises \<open>OverflowError\<close> when the day leaves the range
  of ordinals; the difference of two naive datetimes is always a timedelta.
\<close>

type_synonym timedelta = int

definition timedelta_days :: "int \<Rightarrow> timedelta" where
  "timedelta_days n = n * 86400000000"

definition timedelta_hours :: "int \<Rightarrow> timedelta" where
  "timedelta_hours n = n * 3600000000"

definition timedelta_minutes :: "int \<Rightarrow> timedelta" where
  "timedelta_minutes n = n * 60000000"

definition total_seconds :: "timedelta \<Rightarrow> rat" where
  "total_seconds td = of_int td / 1000000"

definition to_us :: "datetime \<Rightarrow> int" where
  "to_us dt = int ((((ymd2ord (year dt) (month dt) (day dt) * 24 + hour dt) * 60 + minute dt) * 60
                  + second dt) * 1000000 + microsecond dt)"

definition sub_timedelta :: "datetime \<Rightarrow> timedelta \<Rightarrow> exc + datetime" where
  "sub_timedelta dt td =
     (let total = to_us dt - td;
          days = total div 86400000000;
          rest = nat (total mod 86400000000);
          secs = rest div 1000000;
          us = rest mod 1000000;
          h = secs div 3600; rem = secs mod 3600;
          mi = rem div 60; s = rem mod 60
      in if 0 < days \<and> days \<le> int MAXORDINAL
         then (case ord2ymd (nat days) of (y, m, d) \<Rightarrow>
                 Inr \<lparr>year = y, month = m, day = d, hour = h, minute = mi, second = s,
                      microsecond = us\<rparr>)
         else Inl OverflowError)"

definition sub_datetime :: "datetime \<Rightarrow> datetime \<Rightarrow> timedelta" where
  "sub_datetime a b = to_us a - to_us b"

text \<open>
  \<open>isoformat()\<close> of a naive datetime: \<open>YYYY-MM-DDTHH:MM:SS\<close>, followed by \<open>.ffffff\<close>
  only when the microsecond field is not 0.
\<close>

definition isoformat :: "datetime \<Rightarrow> string" where
  "isoformat dt =
     fmt_d 4 (year dt) @ ''-'' @ fmt_d 2 (month dt) @ ''-'' @ fmt_d 2 (day dt) @ ''T'' @
     fmt_d 2 (hour dt) @ '':'' @ fmt_d 2 (minute dt) @ '':'' @ fmt_d 2 (second dt) @
     (if microsecond dt = 0 then [] else ''.'' @ fmt_d 6 (microsecond dt))"

text \<open>
  \<open>datetime.fromisoformat\<close>. Every interpreter version reads the two layouts that
  \<open>isoformat\<close> writes for a naive datetime, and \<open>parse_isoformat\<close> reads exactly those.
  What it answers for any other string depends on the interpreter version (later versions
  read more of ISO 8601), so that answer is a parameter: the datetime read, or the exception
  raised. A string that denotes a datetime with a time zone is answered \<open>TypeError\<close> there,
  the exception of the subtraction from a naive datetime that follows at once.
\<close>

definition is_digit :: "char \<Rightarrow> bool" where
  "is_digit c \<longleftrightarrow> CHR ''0'' \<le> c \<and> c \<le> CHR ''9''"

definition digit_val :: "char \<Rightarrow> nat" where
  "digit_val c = of_char c - 48"

definition read_nat :: "string \<Rightarrow> nat option" where
  "read_nat s =
     (if s \<noteq> [] \<and> list_all is_digit s
      then Some (foldl (\<lambda>a c. 10 * a + digit_val c) 0 s) else None)"

definition parse_isoformat :: "string \<Rightarrow> datetime option" where
  "parse_isoformat s =
     (if (length s = 19 \<or> (length s = 26 \<and> s ! 19 = CHR ''.'')) \<and>
         s ! 4 = CHR ''-'' \<and> s ! 7 = CHR ''-'' \<and> s ! 10 = CHR ''T'' \<and>
         s ! 13 = CHR '':'' \<and> s ! 16 = CHR '':''
      then
        (case (read_nat (take 4 s), read_nat (take 2 (drop 5 s)),
               read_nat (take 2 (drop 8 s)), read_nat (take 2 (drop 11 s)),
               read_nat (take 2 (drop 14 s)), read_nat (take 2 (drop 17 s)),
               if length s = 19 then Some 0 else read_nat (drop 20 s)) of
           (Some y, Some m, Some d, Some h, Some mi, Some sec, Some us) \<Rightarrow>
             (let dt = \<lparr>year = y, month = m, day = d, hour = h, minute = mi, second = sec,
                        microsecond = us\<rparr>
              in if valid_datetime dt then Some dt else None)
         | _ \<Rightarrow> None)
      else None)"

definition fromisoformat :: "(string \<Rightarrow> exc + datetime) \<Rightarrow> string \<Rightarrow> exc + datetime" where
  "fromisoformat other s = (case parse_isoformat s of Some dt \<Rightarrow> Inr dt | None \<Rightarrow> other s)"

section \<open>The rate limiter: \<open>check_rate_limits\<close>\<close>

text \<open>
  What the rate-limit file holds when the check starts: no file, a file that cannot be
  opened or whose text \<open>json.load\<close> rejects, or a file holding a JSON value.
\<close>

datatype ledger_file = Missing | Unreadable | Holds json

text \<open>
  How the attempt to save goes: the file is written; creating the directory or opening
  the file fails and the file stays as it was; or the file is opened, hence emptied, and
  writing fails, which leaves text that is not a JSON document.
\<close>

datatype save_outcome = Saved | NotOpened | Interrupted

text \<open>
  One attempt to reach the backend, as the \<open>try\<close> block sees it: an exception with its
  \<open>str\<close> text (network, timeout, missing choice, text that is not JSON), or the value that
  \<open>json.loads\<close> returns.
\<close>

datatype attempt = Fails string | Replies json

text \<open>
  Everything outside the program that one run reads: the clock, the rate-limit file, the
  fate of the save, the interpreter's reading of other timestamp layouts, and the backend's
  answer to a request (the digest text sent, the attempt number).
\<close>

record world =
  now :: datetime
  ledger :: ledger_file
  save :: save_outcome
  parse_other :: "string \<Rightarrow> exc + datetime"
  backend :: "string \<Rightarrow> nat \<Rightarrow> attempt"

text \<open>
  What the check leaves behind: its answer or the exception that escapes, the list
  \<open>rate_data["requests"]\<close> in memory when it ends (empty when it was never built), the
  file, and how often it tried to write the file.
\<close>

record rate_check =
  answer :: "exc + bool"
  requests :: "string list"
  ledger_after :: ledger_file
  writes :: nat

text \<open>
  \<open>value[key]\<close> with a string key, and iteration over a value: a list gives its
  elements, an object its keys, a string its characters (here its bytes), and nothing else
  can be iterated.
\<close>

fun py_getitem :: "json \<Rightarrow> string \<Rightarrow> exc + json" where
  "py_getitem (JObj kvs) k = (case map_of kvs k of Some v \<Rightarrow> Inr v | None \<Rightarrow> Inl KeyError)"
| "py_getitem v k = Inl TypeError"

fun py_iter :: "json \<Rightarrow> exc + json list" where
  "py_iter (JArr xs) = Inr xs"
| "py_iter (JStr s) = Inr (map (\<lambda>c. JStr [c]) s)"
| "py_iter (JObj kvs) = Inr (map (\<lambda>kv. JStr (fst kv)) kvs)"
| "py_iter v = Inl TypeError"

text \<open>\<open>d[key] = v\<close> on a dictionary: the value is replaced in place, a new key goes last.\<close>

fun dict_set :: "pydict \<Rightarrow> string \<Rightarrow> json \<Rightarrow> pydict" where
  "dict_set [] k v = [(k, v)]"
| "dict_set ((k', v') # d) k v = (if k' = k then (k, v) # d else (k', v') # dict_set d k v)"

text \<open>
  \<open>[req for req in ... if req > cutoff_time]\<close>: comparing anything but a string with the
  string \<open>cutoff_time\<close> raises \<open>TypeError\<close>.
\<close>

fun keep_newer :: "string \<Rightarrow> json list \<Rightarrow> exc + string list" where
  "keep_newer cutoff_time [] = Inr []"
| "keep_newer cutoff_time (JStr req # rest) =
     (case keep_newer cutoff_time rest of
        Inl e \<Rightarrow> Inl e
      | Inr kept \<Rightarrow> Inr (if req > cutoff_time then req # kept else kept))"
| "keep_newer cutoff_time (v # rest) = Inl TypeError"

definition load_rate_data :: "ledger_file \<Rightarrow> json" where
  "load_rate_data f =
     (case f of Holds v \<Rightarrow> v | Missing \<Rightarrow> JObj [(''requests'', JArr [])]
      | Unreadable \<Rightarrow> JObj [(''requests'', JArr [])])"

text \<open>Lines 111 to 127: load the file, compute the cutoff, drop the old entries.\<close>

definition retained_requests :: "world \<Rightarrow> exc + (json \<times> string list)" where
  "retained_requests w =
     (let rate_data = load_rate_data (ledger w) in
      case sub_timedelta (now w) (timedelta_days 1) of
        Inl e \<Rightarrow> Inl e
      | Inr cutoff \<Rightarrow>
          let cutoff_time = isoformat cutoff in
          (case py_getitem rate_data ''requests'' of
             Inl e \<Rightarrow> Inl e
           | Inr reqs \<Rightarrow>
               (case py_iter reqs of
                  Inl e \<Rightarrow> Inl e
                | Inr items \<Rightarrow>
                    (case keep_newer cutoff_time items of
                       Inl e \<Rightarrow> Inl e
                     | Inr kept \<Rightarrow> Inr (rate_data, kept)))))"

text \<open>
  Lines 129 to 137: is the last retained request too recent? Python computes the minutes
  in floating point; the model computes them exactly. The two comparisons agree for a
  whole number of minutes and a difference of less than a day in either direction: at
  the boundary both quotients are exact, and elsewhere the difference of at least one
  microsecond is far above the rounding error.
\<close>

definition interval_not_met :: "config \<Rightarrow> world \<Rightarrow> string list \<Rightarrow> exc + bool" where
  "interval_not_met cfg w reqs =
     (if reqs \<noteq> [] then
        (case fromisoformat (parse_other w) (last reqs) of
           Inl e \<Rightarrow> Inl e
         | Inr last_request \<Rightarrow>
             let time_since_last = total_seconds (sub_datetime (now w) last_request) / 60
             in Inr (time_since_last < of_int (min_interval_minutes cfg)))
      else Inr False)"

text \<open>Lines 139 to 141: the retained requests of the last hour.\<close>

definition hour_requests :: "world \<Rightarrow> string list \<Rightarrow> exc + nat" where
  "hour_requests w reqs =
     (case sub_timedelta (now w) (timedelta_hours 1) of
        Inl e \<Rightarrow> Inl e
      | Inr t \<Rightarrow> let hour_ago = isoformat t in Inr (length (filter (\<lambda>req. req > hour_ago) reqs)))"

text \<open>Lines 154 to 163: the file after the attempt to save \<open>rate_data\<close>.\<close>

definition save_rate_data :: "world \<Rightarrow> json \<Rightarrow> ledger_file" where
  "save_rate_data w rate_data =
     (case save w of Saved \<Rightarrow> Holds rate_data | NotOpened \<Rightarrow> ledger w
      | Interrupted \<Rightarrow> Unreadable)"

definition set_requests :: "json \<Rightarrow> string list \<Rightarrow> json" where
  "set_requests rate_data reqs =
     (case rate_data of JObj kvs \<Rightarrow> JObj (dict_set kvs ''requests'' (JArr (map JStr reqs)))
      | v \<Rightarrow> v)"

definition check_rate_limits :: "config \<Rightarrow> world \<Rightarrow> rate_check" where
  "check_rate_limits cfg w =
     (case retained_requests w of
        Inl e \<Rightarrow> \<lparr>answer = Inl e, requests = [], ledger_after = ledger w, writes = 0\<rparr>
      | Inr (rate_data, reqs) \<Rightarrow>
          (case interval_not_met cfg w reqs of
             Inl e \<Rightarrow> \<lparr>answer = Inl e, requests = reqs, ledger_after = ledger w, writes = 0\<rparr>
           | Inr True \<Rightarrow>
               \<lparr>answer = Inr False, requests = reqs, ledger_after = ledger w, writes = 0\<rparr>
           | Inr False \<Rightarrow>
               (case hour_requests w reqs of
                  Inl e \<Rightarrow>
                    \<lparr>answer = Inl e, requests = reqs, ledger_after = ledger w, writes = 0\<rparr>
                | Inr in_hour \<Rightarrow>
                    if int in_hour \<ge> max_requests_per_hour cfg
                    then \<lparr>answer = Inr False, requests = reqs, ledger_after = ledger w,
                          writes = 0\<rparr>
                    else
                      let day_requests = length reqs in
                      if int day_requests \<ge> max_requests_per_day cfg
                      then \<lparr>answer = Inr False, requests = reqs, ledger_after = ledger w,
                            writes = 0\<rparr>
                      else
                        let reqs' = reqs @ [isoformat (now w)];
                            rate_data' = set_requests rate_data reqs'
                        in \<lparr>answer = Inr True, requests = reqs',
                            ledger_after = save_rate_data w rate_data', writes = 1\<rparr>)))"

section \<open>The classifier client: \<open>analyze_with_ai\<close>\<close>

text \<open>The Japanese texts of the two early results, as their UTF-8 bytes.\<close>

definition msg_no_output :: string where
  "msg_no_output = map char_of
     [229 :: nat, 136, 134, 230, 158, 144, 227, 129, 153, 227, 130, 139, 108, 111, 103, 119, 97,
      116, 99, 104, 229, 135, 186, 229, 138, 155, 227, 129, 140, 227, 129, 130, 227,
      130, 138, 227, 129, 190, 227, 129, 155, 227, 130, 147]"

definition msg_rate_limited :: string where
  "msg_rate_limited = map char_of
     [227 :: nat, 131, 172, 227, 131, 188, 227, 131, 136, 229, 136, 182, 233, 153, 144, 232, 182,
      133, 233, 129, 142, 32, 45, 32, 65, 80, 73, 233, 129, 142, 229, 137, 176, 229,
      136, 169, 231, 148, 168, 233, 152, 178, 230, 173, 162, 227, 129, 174, 227,
      129, 159, 227, 130, 129, 227, 130, 185, 227, 130, 173, 227, 131, 131, 227,
      131, 151, 227, 129, 151, 227, 129, 190, 227, 129, 151, 227, 129, 159]"

definition msg_protection :: string where
  "msg_protection = map char_of
     [227 :: nat, 131, 172, 227, 131, 188, 227, 131, 136, 229, 136, 182, 233, 153, 144, 228, 191,
      157, 232, 173, 183, 227, 129, 140, 228, 189, 156, 229, 139, 149, 227, 129,
      151, 227, 129, 190, 227, 129, 151, 227, 129, 159]"

definition msg_wait :: string where
  "msg_wait = map char_of
     [230 :: nat, 172, 161, 229, 155, 158, 229, 174, 159, 232, 161, 140, 227, 129, 190, 227, 129,
      167, 229, 190, 133, 227, 129, 164, 227, 129, 139, 227, 128, 129, 232, 168,
      173, 229, 174, 154, 227, 129, 167, 227, 131, 172, 227, 131, 188, 227, 131,
      136, 229, 136, 182, 233, 153, 144, 227, 130, 146, 232, 170, 191, 230, 149,
      180, 227, 129, 151, 227, 129, 166, 227, 129, 143, 227, 129, 160, 227, 129,
      149, 227, 129, 132]"

definition no_input_result :: pydict where
  "no_input_result =
     [(''severity'', JStr ''error''), (''issues_found'', JBool True),
      (''summary'', JStr msg_no_output), (''details'', JArr []),
      (''recommendations'', JArr [])]"

definition rate_limited_result :: pydict where
  "rate_limited_result =
     [(''severity'', JStr ''error''), (''issues_found'', JBool True),
      (''summary'', JStr msg_rate_limited),
      (''critical_issues'', JArr [JStr msg_protection]), (''warnings'', JArr []),
      (''statistics'', JObj []), (''recommendations'', JArr [JStr msg_wait])]"

text \<open>\<open>str(last_error)\<close>: the text of the last exception, \<open>None\<close> when there was none.\<close>

definition str_error :: "string option \<Rightarrow> string" where
  "str_error e = (case e of None \<Rightarrow> ''None'' | Some d \<Rightarrow> d)"

definition retries_failed_result :: "config \<Rightarrow> string option \<Rightarrow> pydict" where
  "retries_failed_result cfg last_error =
     [(''severity'', JStr ''error''), (''issues_found'', JBool True),
      (''summary'',
         JStr (''AI analysis failed after '' @ str_int (max_retries cfg) @ '' attempts: '' @
               str_error last_error)),
      (''critical_issues'',
         JArr [JStr ''Failed to analyze logs with AI after multiple retries'']),
      (''warnings'', JArr []), (''statistics'', JObj []),
      (''recommendations'',
         JArr [JStr ''Check OpenAI API key, connectivity, and rate limits''])]"

text \<open>
  The body of the \<open>try\<close> block for one attempt: the result it returns, or the text of the
  exception that the handler catches. A reply that is not an object has no \<open>get\<close>, so the
  logging line raises \<open>AttributeError\<close>.
\<close>

fun type_name :: "json \<Rightarrow> string" where
  "type_name JNull = ''NoneType''"
| "type_name (JBool b) = ''bool''"
| "type_name (JInt i) = ''int''"
| "type_name (JFloat r) = ''float''"
| "type_name (JStr s) = ''str''"
| "type_name (JArr xs) = ''list''"
| "type_name (JObj kvs) = ''dict''"

fun try_body :: "attempt \<Rightarrow> string + pydict" where
  "try_body (Fails e) = Inl e"
| "try_body (Replies (JObj result)) = Inr result"
| "try_body (Replies v) =
     Inl ([CHR 0x27] @ type_name v @ [CHR 0x27] @ '' object has no attribute '' @
          [CHR 0x27] @ ''get'' @ [CHR 0x27])"

text \<open>
  How the retry loop ends: a result is returned, an exception escapes (\<open>time.sleep\<close>
  refuses a negative delay), or the attempts run out with the last error. With it go the
  number of backend calls made and the delays slept, in order.
\<close>

datatype loop_exit = Returned pydict | Escaped exc | Exhausted "string option"

fun api_attempts ::
  "config \<Rightarrow> (nat \<Rightarrow> attempt) \<Rightarrow> nat list \<Rightarrow> string option \<Rightarrow> loop_exit \<times> nat \<times> int list"
where
  "api_attempts cfg call [] last_error = (Exhausted last_error, 0, [])"
| "api_attempts cfg call (i # rest) last_error =
     (case try_body (call i) of
        Inr result \<Rightarrow> (Returned result, 1, [])
      | Inl e \<Rightarrow>
          if int i < max_retries cfg - 1 then
            let delay = retry_delay_seconds cfg * 2 ^ i in
            if delay < 0 then (Escaped ValueError, 1, [])
            else
              (case api_attempts cfg call rest (Some e) of
                 (x, calls, sleeps) \<Rightarrow> (x, Suc calls, delay # sleeps))
          else
            (case api_attempts cfg call rest (Some e) of
               (x, calls, sleeps) \<Rightarrow> (x, Suc calls, sleeps)))"

text \<open>
  One call of \<open>analyze_with_ai\<close>: what it returns or lets escape, the backend calls made,
  the delays slept, the rate-limit checks made and the rate-limit file afterwards. The
  request carries the first 8000 characters of the digest inside a fixed instruction text,
  the same at every attempt.
\<close>

record analysis_run =
  returned :: "exc + pydict"
  backend_calls :: nat
  slept :: "int list"
  rate_checks :: nat
  ledger_end :: ledger_file

definition analyze_with_ai :: "config \<Rightarrow> world \<Rightarrow> string \<Rightarrow> analysis_run" where
  "analyze_with_ai cfg w log_content =
     (if log_content = [] then
        \<lparr>returned = Inr no_input_result, backend_calls = 0, slept = [], rate_checks = 0,
         ledger_end = ledger w\<rparr>
      else
        let rc = check_rate_limits cfg w in
        case answer rc of
          Inl e \<Rightarrow>
            \<lparr>returned = Inl e, backend_calls = 0, slept = [], rate_checks = 1,
             ledger_end = ledger_after rc\<rparr>
        | Inr False \<Rightarrow>
            \<lparr>returned = Inr rate_limited_result, backend_calls = 0, slept = [],
             rate_checks = 1, ledger_end = ledger_after rc\<rparr>
        | Inr True \<Rightarrow>
            (case api_attempts cfg (backend w (take 8000 log_content))
                    [0..<nat (max_retries cfg)] None of
               (Returned result, calls, sleeps) \<Rightarrow>
                 \<lparr>returned = Inr result, backend_calls = calls, slept = sleeps,
                  rate_checks = 1, ledger_end = ledger_after rc\<rparr>
             | (Escaped e, calls, sleeps) \<Rightarrow>
                 \<lparr>returned = Inl e, backend_calls = calls, slept = sleeps,
                  rate_checks = 1, ledger_end = ledger_after rc\<rparr>
             | (Exhausted last_error, calls, sleeps) \<Rightarrow>
                 \<lparr>returned = Inr (retries_failed_result cfg last_error),
                  backend_calls = calls, slept = sleeps, rate_checks = 1,
                  ledger_end = ledger_after rc\<rparr>))"

section \<open>Notions used in the proofs\<close>

text \<open>
  The order of dates and of datetimes field by field, the digits of a number at a fixed
  width, the optional fraction of \<open>isoformat\<close>, and the time of day in microseconds.
\<close>

definition date_less :: "nat \<times> nat \<times> nat \<Rightarrow> nat \<times> nat \<times> nat \<Rightarrow> bool" where
  "date_less a b \<longleftrightarrow>
     (case a of (y, m, d) \<Rightarrow> case b of (y', m', d') \<Rightarrow>
        y < y' \<or> (y = y' \<and> (m < m' \<or> (m = m' \<and> d < d'))))"

fun pad :: "nat \<Rightarrow> nat \<Rightarrow> string" where
  "pad 0 n = []"
| "pad (Suc w) n = pad w (n div 10) @ [digit_char (n mod 10)]"

definition frac :: "nat \<Rightarrow> string" where
  "frac us = (if us = 0 then [] else ''.'' @ pad 6 us)"

definition dt_less :: "datetime \<Rightarrow> datetime \<Rightarrow> bool" where
  "dt_less a b \<longleftrightarrow>
     year a < year b \<or> (year a = year b \<and>
     (month a < month b \<or> (month a = month b \<and>
     (day a < day b \<or> (day a = day b \<and>
     (hour a < hour b \<or> (hour a = hour b \<and>
     (minute a < minute b \<or> (minute a = minute b \<and>
     (second a < second b \<or> (second a = second b \<and>
      microsecond a < microsecond b)))))))))))"

definition time_of_day_us :: "datetime \<Rightarrow> nat" where
  "time_of_day_us dt = ((hour dt * 60 + minute dt) * 60 + second dt) * 1000000 + microsecond dt"

text \<open>
  The entries of the rate-limit file as the next run will load them, and a sequence of
  runs of the check: each run has its own clock reading and its own fate of the save, and
  finds the file that the run before it left. The result is the last file and the number
  of runs that were accepted.
\<close>

definition ledger_entries :: "ledger_file \<Rightarrow> json list" where
  "ledger_entries f =
     (case py_getitem (load_rate_data f) ''requests'' of
        Inr (JArr xs) \<Rightarrow> xs
      | _ \<Rightarrow> [])"

fun check_runs :: "config \<Rightarrow> world \<Rightarrow> (datetime \<times> save_outcome) list \<Rightarrow> ledger_file \<times> nat" where
  "check_runs cfg w [] = (ledger w, 0)"
| "check_runs cfg w ((t, sv) # rest) =
     (let rc = check_rate_limits cfg (w\<lparr>now := t, save := sv\<rparr>) in
      case check_runs cfg (w\<lparr>ledger := ledger_after rc\<rparr>) rest of
        (f, n) \<Rightarrow> (f, if answer rc = Inr True then Suc n else n))"

text \<open>A clock reading for which the cutoff one day earlier exists.\<close>

definition clock_ok :: "datetime \<Rightarrow> bool" where
  "clock_ok t \<longleftrightarrow> valid_datetime t \<and> 2 \<le> year t"


text \<open>
  A clock reading and a world for the examples: one minute past midnight on 2 January
  2024, no rate-limit file yet, a save that works, an interpreter that reads no other
  timestamp layout, and a backend that times out at every attempt.
\<close>

definition example_now :: datetime where
  "example_now =
     \<lparr>year = 2024, month = 1, day = 2, hour = 0, minute = 1, second = 0, microsecond = 0\<rparr>"

definition example_world :: world where
  "example_world =
     \<lparr>now = example_now, ledger = Missing, save = Saved,
      parse_other = (\<lambda>s. Inl ValueError), backend = (\<lambda>text i. Fails ''timed out'')\<rparr>"

text \<open>A rate-limit file with two entries, the first of them a day and a minute before
  \<open>example_now\<close>, the second two minutes before it.\<close>

definition example_ledger :: json where
  "example_ledger =
     JObj [(''requests'', JArr [JStr ''2024-01-01T00:00:00'', JStr ''2024-01-01T23:59:00''])]"


text \<open>
  A file the check can work with: none, an unreadable one, or an object whose
  \<open>requests\<close> is a list of strings, as the check itself writes it.
\<close>

fun is_str :: "json \<Rightarrow> bool" where
  "is_str (JStr s) = True"
| "is_str v = False"

definition well_formed_ledger :: "ledger_file \<Rightarrow> bool" where
  "well_formed_ledger f \<longleftrightarrow>
     (case f of
        Holds v \<Rightarrow>
          (case py_getitem v ''requests'' of
             Inr (JArr xs) \<Rightarrow> list_all is_str xs
           | _ \<Rightarrow> False)
      | _ \<Rightarrow> True)"

text \<open>
  More examples: the times of the two entries of \<open>example_ledger\<close>; a configuration that
  asks for 2000 minutes between requests, with a world whose only entry is 25 hours old; a
  world whose last entry is exactly five minutes old; and three runs of the check, at
  00:01, 00:03 and 00:30.
\<close>

definition example_stale :: datetime where
  "example_stale =
     \<lparr>year = 2024, month = 1, day = 1, hour = 0, minute = 0, second = 0, microsecond = 0\<rparr>"

definition example_recent :: datetime where
  "example_recent =
     \<lparr>year = 2024, month = 1, day = 1, hour = 23, minute = 59, second = 0, microsecond = 0\<rparr>"




definition example_runs :: "(datetime \<times> save_outcome) list" where
  "example_runs =
     [(example_now, Saved), (example_now\<lparr>minute := 3\<rparr>, Saved),
      (example_now\<lparr>minute := 30\<rparr>, Saved)]"

section \<open>Properties of the alert gate\<close>

lemma levels_get_str:
  "levels_get (JStr s) 0 = Inr (severity_rank s)"
  by (simp add: severity_levels_def severity_rank_def)

lemma levels_get_threshold:
  "levels_get (JStr t) 2 = Inr (if known_severity t then severity_rank t else 2)"
  by (simp add: severity_levels_def severity_rank_def known_severity_def)

lemma should_send_alert_str:
  assumes "severity_of analysis = JStr s"
  shows "should_send_alert cfg analysis =
           Inr (always_send_summary cfg \<or>
                severity_rank s \<ge>
                  (if known_severity (alert_threshold cfg)
                   then severity_rank (alert_threshold cfg) else 2))"
proof (cases "always_send_summary cfg")
  case True
  then show ?thesis by (simp add: should_send_alert_def)
next
  case False
  have "dict_get analysis ''severity'' (JStr ''none'') = JStr s"
    using assms by (simp add: severity_of_def)
  with False show ?thesis
    by (simp add: should_send_alert_def levels_get_str levels_get_threshold
             del: levels_get.simps)
qed



text \<open>
  C6. For one configuration (so one threshold) and two results whose severities are
  strings, the second ranked at least as high as the first: if the gate answers true for
  the first, it answers true for the second.
\<close>

theorem should_send_alert_monotone:
  assumes "severity_of a1 = JStr s1" and "severity_of a2 = JStr s2"
    and "severity_rank s1 \<le> severity_rank s2"
    and "should_send_alert cfg a1 = Inr True"
  shows "should_send_alert cfg a2 = Inr True"
proof -
  let ?t = "if known_severity (alert_threshold cfg)
            then severity_rank (alert_threshold cfg) else 2"
  from assms(4) should_send_alert_str [OF assms(1), of cfg]
  have "always_send_summary cfg \<or> ?t \<le> severity_rank s1" by simp
  with assms(3) have "always_send_summary cfg \<or> ?t \<le> severity_rank s2" by auto
  with should_send_alert_str [OF assms(2), of cfg] show ?thesis by simp
qed

theorem should_send_alert_monotone_witness:
  "severity_of [(''severity'', JStr ''medium'')] = JStr ''medium'' \<and>
   severity_of [(''severity'', JStr ''error'')] = JStr ''error'' \<and>
   severity_rank ''medium'' \<le> severity_rank ''error'' \<and>
   should_send_alert default_config [(''severity'', JStr ''medium'')] = Inr True \<and>
   should_send_alert default_config [(''severity'', JStr ''error'')] = Inr True"
proof -
  have 1: "severity_of [(''severity'', JStr ''medium'')] = JStr ''medium''"
    by (simp add: severity_of_def dict_get_def)
  have 2: "severity_of [(''severity'', JStr ''error'')] = JStr ''error''"
    by (simp add: severity_of_def dict_get_def)
  have 3: "severity_rank ''medium'' \<le> severity_rank ''error''"
    by (simp add: severity_rank_def)
  have 4: "should_send_alert default_config [(''severity'', JStr ''medium'')] = Inr True"
    by (simp add: should_send_alert_def default_config_def dict_get_def
          severity_levels_def)
  from should_send_alert_monotone [OF 1 2 3 4] 1 2 3 4 show ?thesis by simp
qed

text \<open>
  C10. Without \<open>always_send_summary\<close>, a threshold that is none of the six names acts as
  \<open>''medium''\<close>: for a result whose severity is a string (or absent) the gate answers true
  exactly when the severity's rank is at least 2.
\<close>

theorem should_send_alert_unknown_threshold:
  assumes "\<not> always_send_summary cfg" and "\<not> known_severity (alert_threshold cfg)"
    and "severity_of analysis = JStr s"
  shows "should_send_alert cfg analysis = Inr (severity_rank s \<ge> 2) \<and>
         should_send_alert cfg analysis =
           should_send_alert (cfg\<lparr>alert_threshold := ''medium''\<rparr>) analysis"
proof -
  have m: "known_severity ''medium''" "severity_rank ''medium'' = 2"
    by (simp_all add: known_severity_def severity_rank_def)
  from should_send_alert_str [OF assms(3), of cfg] assms(1,2)
  have a: "should_send_alert cfg analysis = Inr (severity_rank s \<ge> 2)" by simp
  from should_send_alert_str [OF assms(3), of "cfg\<lparr>alert_threshold := ''medium''\<rparr>"]
    assms(1) m
  have "should_send_alert (cfg\<lparr>alert_threshold := ''medium''\<rparr>) analysis =
          Inr (severity_rank s \<ge> 2)" by simp
  with a show ?thesis by simp
qed

theorem should_send_alert_unknown_threshold_witness:
  "\<not> always_send_summary (default_config\<lparr>alert_threshold := ''urgent''\<rparr>) \<and>
   \<not> known_severity (alert_threshold (default_config\<lparr>alert_threshold := ''urgent''\<rparr>)) \<and>
   severity_of [(''severity'', JStr ''low'')] = JStr ''low'' \<and>
   should_send_alert (default_config\<lparr>alert_threshold := ''urgent''\<rparr>)
     [(''severity'', JStr ''low'')] = Inr False"
proof -
  let ?cfg = "default_config\<lparr>alert_threshold := ''urgent''\<rparr>"
  have 1: "\<not> always_send_summary ?cfg"
    by (simp add: default_config_def)
  have 2: "\<not> known_severity (alert_threshold ?cfg)"
    by (simp add: known_severity_def)
  have 3: "severity_of [(''severity'', JStr ''low'')] = JStr ''low''"
    by (simp add: severity_of_def dict_get_def)
  have "\<not> (2 \<le> severity_rank ''low'')"
    by (simp add: severity_rank_def)
  with should_send_alert_unknown_threshold [OF 1 2 3] 1 2 3 show ?thesis
    by simp
qed


section \<open>Properties of the calendar and of the timestamp text\<close>

lemma replicate_numeral [simp]: "replicate (numeral k) x = x # replicate (pred_numeral k) x"
  by (simp add: numeral_eq_Suc)

lemmas dt_defs = isoformat_def fmt_d_def zfill_def str_nat.simps digit_char_def sub_timedelta_def
  to_us_def ymd2ord_def ord2ymd_def month_day_def days_before_year_def days_before_month_def
  days_in_month_def DAYS_BEFORE_MONTH_def DAYS_IN_MONTH_def is_leap_def MAXORDINAL_def Let_def
  valid_datetime_def valid_date_def parse_isoformat_def read_nat_def is_digit_def digit_val_def
  fromisoformat_def

lemma div_nat_eqI': "(q::nat) * k \<le> n \<Longrightarrow> n < q * k + k \<Longrightarrow> n div k = q"
  by (rule div_nat_eqI) (simp_all add: mult.commute)

lemma mod_100_4: "(n::nat) mod 100 = 0 \<Longrightarrow> n mod 4 = 0"
proof -
  assume a: "n mod 100 = 0"
  have "(4::nat) dvd 100" by simp
  then have "n mod 100 mod 4 = n mod 4" by (rule mod_mod_cancel)
  with a show ?thesis by simp
qed

lemma mod_400_100: "(n::nat) mod 400 = 0 \<Longrightarrow> n mod 100 = 0"
proof -
  assume a: "n mod 400 = 0"
  have "(100::nat) dvd 400" by simp
  then have "n mod 400 mod 100 = n mod 100" by (rule mod_mod_cancel)
  with a show ?thesis by simp
qed

lemma dby_add:
  "days_before_year (Suc p) + p div 100 = p * 365 + p div 4 + p div 400"
proof -
  have "p div 100 \<le> p div 4" by (simp add: div_le_mono2)
  then have "p div 100 \<le> p * 365 + p div 4" by (rule trans_le_add2)
  then show ?thesis by (simp add: days_before_year_def)
qed

lemma dby_Suc:
  "days_before_year (Suc (Suc p)) =
     days_before_year (Suc p) + (if is_leap (Suc p) then 366 else 365)"
proof -
  define b4 b100 b400 where "b4 \<longleftrightarrow> Suc p mod 4 = 0" and "b100 \<longleftrightarrow> Suc p mod 100 = 0"
    and "b400 \<longleftrightarrow> Suc p mod 400 = 0"
  define q4 q100 q400 where "q4 = p div 4" and "q100 = p div 100" and "q400 = p div 400"
  define r4 r100 r400 where "r4 = Suc p div 4" and "r100 = Suc p div 100"
    and "r400 = Suc p div 400"
  define A B where "A = days_before_year (Suc p)" and "B = days_before_year (Suc (Suc p))"
  have m: "b100 \<longrightarrow> b4" "b400 \<longrightarrow> b100"
    unfolding b4_def b100_def b400_def by (auto intro: mod_100_4 mod_400_100)
  have s: "r4 = (if b4 then Suc q4 else q4)" "r100 = (if b100 then Suc q100 else q100)"
    "r400 = (if b400 then Suc q400 else q400)"
    unfolding r4_def r100_def r400_def q4_def q100_def q400_def b4_def b100_def b400_def
    by (simp_all add: div_Suc)
  have a: "A + q100 = p * 365 + q4 + q400"
    unfolding A_def q4_def q100_def q400_def by (rule dby_add)
  have b: "B + r100 = Suc p * 365 + r4 + r400"
    unfolding B_def r4_def r100_def r400_def by (rule dby_add)
  have l: "is_leap (Suc p) \<longleftrightarrow> b4 \<and> (\<not> b100 \<or> b400)"
    unfolding is_leap_def b4_def b100_def b400_def by simp
  have "B = A + (if b4 \<and> (\<not> b100 \<or> b400) then 366 else 365)"
    using m s a b by (cases b4; cases b100; cases b400) simp_all
  then show ?thesis unfolding A_def B_def l .
qed

lemma dby_step: "days_before_year y \<le> days_before_year (Suc y)"
proof (cases y)
  case 0
  then show ?thesis by (simp add: days_before_year_def)
next
  case (Suc p)
  then show ?thesis using dby_Suc [of p] by simp
qed

lemma dby_mono: "y \<le> y' \<Longrightarrow> days_before_year y \<le> days_before_year y'"
  by (rule lift_Suc_mono_le [of days_before_year]) (simp_all add: dby_step)

lemma dby_decomp:
  assumes "b < 4" "c < 25" "e < 4"
  shows "days_before_year (400 * a + 100 * b + 4 * c + e + 1) =
           146097 * a + 36524 * b + 1461 * c + 365 * e"
proof -
  let ?p = "400 * a + 100 * b + 4 * c + e"
  have d4: "?p div 4 = 100 * a + 25 * b + c"
    using assms by (intro div_nat_eqI') simp_all
  have d100: "?p div 100 = 4 * a + b"
    using assms by (intro div_nat_eqI') simp_all
  have d400: "?p div 400 = a"
    using assms by (intro div_nat_eqI') simp_all
  show ?thesis
    unfolding days_before_year_def Let_def
    by (simp only: add_diff_cancel_right' d4 d100 d400) simp
qed

lemma month_cases:
  assumes "1 \<le> m" "m \<le> (12::nat)"
  shows "m = 1 \<or> m = 2 \<or> m = 3 \<or> m = 4 \<or> m = 5 \<or> m = 6 \<or> m = 7 \<or> m = 8 \<or> m = 9 \<or>
         m = 10 \<or> m = 11 \<or> m = 12"
  using assms by arith

lemma dbm_dim:
  assumes "1 \<le> m" "m \<le> 12"
  shows "days_before_month y m + days_in_month y m =
           (if m = 12 then (if is_leap y then 366 else 365) else days_before_month y (Suc m))"
  using month_cases [OF assms]
  by (elim disjE)
     (simp_all add: days_before_month_def days_in_month_def DAYS_BEFORE_MONTH_def
        DAYS_IN_MONTH_def)

lemma dbm_mono:
  assumes "1 \<le> m" "m \<le> m'" "m' \<le> 12"
  shows "days_before_month y m \<le> days_before_month y m'"
  using assms(2,1,3)
proof (induction rule: dec_induct)
  case base
  show ?case by simp
next
  case (step n)
  then have "1 \<le> n" "n \<le> 12" "n \<noteq> 12" by simp_all
  with dbm_dim [of n y] have "days_before_month y n \<le> days_before_month y (Suc n)"
    by simp
  with step show ?case by simp
qed

lemma ymd2ord_less_year:
  assumes "valid_date y m d" "valid_date y' m' d'" "y < y'"
  shows "ymd2ord y m d < ymd2ord y' m' d'"
proof -
  from assms(1) have v: "1 \<le> y" "1 \<le> m" "m \<le> 12" "d \<le> days_in_month y m"
    by (simp_all add: valid_date_def)
  from assms(2) have v': "1 \<le> d'" by (simp add: valid_date_def)
  have "days_before_month y m + days_in_month y m \<le> (if is_leap y then 366 else 365)"
  proof (cases "m = 12")
    case True
    then show ?thesis using dbm_dim [of m y] by simp
  next
    case False
    with v have "Suc m \<le> 12" by simp
    with dbm_mono [of "Suc m" 12 y] dbm_dim [of 12 y] dbm_dim [of m y] v False
    show ?thesis by simp
  qed
  with v have a: "ymd2ord y m d \<le> days_before_year y + (if is_leap y then 366 else 365)"
    by (simp add: ymd2ord_def)
  obtain p where p: "y = Suc p" using v(1) by (cases y) simp_all
  from a dby_Suc [of p] have "ymd2ord y m d \<le> days_before_year (Suc y)"
    by (simp add: p)
  also have "\<dots> \<le> days_before_year y'"
    using assms(3) by (intro dby_mono) simp
  also have "\<dots> < ymd2ord y' m' d'"
    using v' by (simp add: ymd2ord_def)
  finally show ?thesis .
qed

lemma ymd2ord_less_month:
  assumes "valid_date y m d" "valid_date y m' d'" "m < m'"
  shows "ymd2ord y m d < ymd2ord y m' d'"
proof -
  from assms(1) have v: "1 \<le> m" "d \<le> days_in_month y m" by (simp_all add: valid_date_def)
  from assms(2) have v': "m' \<le> 12" "1 \<le> d'" by (simp_all add: valid_date_def)
  from v v' assms(3) have "m \<le> 12" "m \<noteq> 12" "1 \<le> Suc m" "Suc m \<le> m'" by simp_all
  with dbm_dim [of m y] v dbm_mono [of "Suc m" m' y] v'
  have "days_before_month y m + d \<le> days_before_month y m'" by simp
  with v' show ?thesis by (simp add: ymd2ord_def)
qed

lemma ymd2ord_mono:
  assumes "valid_date y m d" "valid_date y' m' d'" "date_less (y, m, d) (y', m', d')"
  shows "ymd2ord y m d < ymd2ord y' m' d'"
  using assms ymd2ord_less_year [OF assms(1,2)] ymd2ord_less_month [of y m d m' d']
  by (auto simp: date_less_def ymd2ord_def)

lemma ymd2ord_less_iff:
  assumes "valid_date y m d" "valid_date y' m' d'"
  shows "ymd2ord y m d < ymd2ord y' m' d' \<longleftrightarrow> date_less (y, m, d) (y', m', d')"
proof
  assume "date_less (y, m, d) (y', m', d')"
  with assms show "ymd2ord y m d < ymd2ord y' m' d'" by (rule ymd2ord_mono)
next
  assume l: "ymd2ord y m d < ymd2ord y' m' d'"
  show "date_less (y, m, d) (y', m', d')"
  proof (rule ccontr)
    assume n: "\<not> date_less (y, m, d) (y', m', d')"
    then have "(y, m, d) = (y', m', d') \<or> date_less (y', m', d') (y, m, d)"
      by (auto simp: date_less_def)
    then show False
    proof
      assume "(y, m, d) = (y', m', d')"
      with l show False by simp
    next
      assume "date_less (y', m', d') (y, m, d)"
      with assms(2,1) have "ymd2ord y' m' d' < ymd2ord y m d" by (rule ymd2ord_mono)
      with l show False by simp
    qed
  qed
qed

lemma month_day_correct:
  assumes "n < 365" "month_day leap n = (m, d)"
  shows "1 \<le> m \<and> m \<le> 12 \<and> 1 \<le> d \<and>
         d \<le> (if m = 2 \<and> leap then 29 else DAYS_IN_MONTH ! m) \<and>
         DAYS_BEFORE_MONTH ! m + (if m > 2 \<and> leap then 1 else 0) + d = n + 1"
proof -
  define k where "k = (n + 50) div 32"
  have lo: "k * 32 \<le> n + 50" unfolding k_def by (rule div_times_less_eq_dividend)
  have hi: "n + 50 < k * 32 + 32"
    unfolding k_def using dividend_less_div_times [of 32 "n + 50"] by simp
  from lo hi assms(1) have "1 \<le> k" "k \<le> 12" by simp_all
  then have cases: "k = 1 \<or> k = 2 \<or> k = 3 \<or> k = 4 \<or> k = 5 \<or> k = 6 \<or> k = 7 \<or> k = 8 \<or>
                    k = 9 \<or> k = 10 \<or> k = 11 \<or> k = 12"
    by (rule month_cases)
  have md: "month_day leap n =
     (let preceding = DAYS_BEFORE_MONTH ! k + (if k > 2 \<and> leap then 1 else 0)
      in if preceding > n
         then
           let m = k - 1;
               preceding =
                 preceding - (DAYS_IN_MONTH ! m + (if m = 2 \<and> leap then 1 else 0))
           in (m, n - preceding + 1)
         else (k, n - preceding + 1))"
    unfolding month_day_def k_def Let_def by (rule refl)
  from cases show ?thesis
    using lo hi assms unfolding md
    by (elim disjE; cases leap)
       (auto simp: DAYS_BEFORE_MONTH_def DAYS_IN_MONTH_def Let_def split: if_splits)
qed

lemma mod_nat_eqI': "n = q * k + r \<Longrightarrow> r < k \<Longrightarrow> n mod k = (r::nat)"
  by simp

lemma is_leap_decomp:
  assumes "b < 4" "c < 25" "e < 4"
  shows "is_leap (400 * a + 100 * b + 4 * c + e + 1) \<longleftrightarrow> e = 3 \<and> (c \<noteq> 24 \<or> b = 3)"
proof -
  let ?Y = "400 * a + 100 * b + 4 * c + e + 1"
  show ?thesis
  proof (cases "e = 3")
    case False
    with assms have "?Y mod 4 = e + 1"
      by (intro mod_nat_eqI' [where q = "100 * a + 25 * b + c"]) simp_all
    with False show ?thesis by (simp add: is_leap_def)
  next
    case e: True
    have m4: "?Y mod 4 = 0"
      using e by (intro mod_nat_eqI' [where q = "100 * a + 25 * b + c + 1"]) simp_all
    show ?thesis
    proof (cases "c = 24")
      case False
      with assms e have "?Y mod 100 = 4 * c + 4"
        by (intro mod_nat_eqI' [where q = "4 * a + b"]) simp_all
      with False e m4 show ?thesis by (simp add: is_leap_def)
    next
      case c: True
      have m100: "?Y mod 100 = 0"
        using e c by (intro mod_nat_eqI' [where q = "4 * a + b + 1"]) simp_all
      show ?thesis
      proof (cases "b = 3")
        case True
        with e c have "?Y mod 400 = 0"
          by (intro mod_nat_eqI' [where q = "a + 1"]) simp_all
        with True e c m4 show ?thesis by (simp add: is_leap_def)
      next
        case False
        with assms e c have "?Y mod 400 = 100 * b + 100"
          by (intro mod_nat_eqI' [where q = a]) simp_all
        with False e c m4 m100 show ?thesis by (simp add: is_leap_def)
      qed
    qed
  qed
qed

lemma dby_10000: "days_before_year 10000 = 3652059"
  by (simp add: days_before_year_def)

lemma ord2ymd_correct:
  assumes "1 \<le> n" "n \<le> MAXORDINAL" "ord2ymd n = (y, m, d)"
  shows "valid_date y m d \<and> ymd2ord y m d = n"
proof -
  define n0 where "n0 = n - 1"
  define a where "a = n0 div 146097"
  define r1 where "r1 = n0 mod 146097"
  define b where "b = r1 div 36524"
  define r2 where "r2 = r1 mod 36524"
  define c where "c = r2 div 1461"
  define r3 where "r3 = r2 mod 1461"
  define e where "e = r3 div 365"
  define r4 where "r4 = r3 mod 365"
  have f0: "n = n0 + 1" using assms(1) by (simp add: n0_def)
  have f1: "n0 = a * 146097 + r1" "r1 < 146097" by (simp_all add: a_def r1_def)
  have f2: "r1 = b * 36524 + r2" "r2 < 36524" by (simp_all add: b_def r2_def)
  have f3: "r2 = c * 1461 + r3" "r3 < 1461" by (simp_all add: c_def r3_def)
  have f4: "r3 = e * 365 + r4" "r4 < 365" by (simp_all add: e_def r4_def)
  have bb: "b \<le> 4" using f1 f2 by simp
  have cb: "c < 25" using f2 f3 by simp
  have eb: "e \<le> 4" using f3 f4 by simp
  have unf: "ord2ymd n =
      (if e = 4 \<or> b = 4 then (a * 400 + 1 + b * 100 + c * 4 + e - 1, 12, 31)
       else case month_day (e = 3 \<and> (c \<noteq> 24 \<or> b = 3)) r4 of
              (m, d) \<Rightarrow> (a * 400 + 1 + b * 100 + c * 4 + e, m, d))"
    unfolding ord2ymd_def Let_def r4_def e_def r3_def c_def r2_def b_def r1_def a_def n0_def
    by (rule refl)
  have ymax: "y \<le> 9999" if h: "ymd2ord y m d = n" "1 \<le> d"
  proof (rule ccontr)
    assume "\<not> y \<le> 9999"
    then have "10000 \<le> y" by simp
    then have "days_before_year 10000 \<le> days_before_year y" by (rule dby_mono)
    with h assms(2) show False
      by (simp add: dby_10000 ymd2ord_def MAXORDINAL_def)
  qed
  consider (century) "b = 4" | (quad) "b < 4" "e = 4" | (normal) "b < 4" "e < 4"
    using bb eb by linarith
  then show ?thesis
  proof cases
    case century
    with f1 f2 have "r2 = 0" by simp
    with f3 f4 have z: "c = 0" "e = 0" by simp_all
    from century f1 f2 \<open>r2 = 0\<close> have n0: "n0 = a * 146097 + 146096" by simp
    from assms(3) unf century z have r: "y = 400 * a + 100 * 3 + 4 * 24 + 3 + 1" "m = 12" "d = 31"
      by simp_all
    have dby: "days_before_year y = 146097 * a + 36524 * 3 + 1461 * 24 + 365 * 3"
      unfolding r by (rule dby_decomp) simp_all
    have leap: "is_leap y"
      unfolding r by (subst is_leap_decomp) simp_all
    have o: "ymd2ord y m d = n"
      using dby leap r(2,3) n0 f0
      by (simp add: ymd2ord_def days_before_month_def DAYS_BEFORE_MONTH_def)
    with ymax r(3) have "y \<le> 9999" by simp
    with r o leap show ?thesis
      by (simp add: valid_date_def days_in_month_def DAYS_IN_MONTH_def)
  next
    case quad
    with f4 f3(2) have z: "r4 = 0" "r3 = 1460" by simp_all
    with f3 f2 have c24: "c < 24" by simp
    from assms(3) unf quad have r: "y = 400 * a + 100 * b + 4 * c + 3 + 1" "m = 12" "d = 31"
      by simp_all
    have dby: "days_before_year y = 146097 * a + 36524 * b + 1461 * c + 365 * 3"
      unfolding r using quad(1) cb by (intro dby_decomp) simp_all
    have leap: "is_leap y"
      unfolding r using quad(1) cb c24 by (subst is_leap_decomp) simp_all
    have o: "ymd2ord y m d = n"
      using dby leap r(2,3) z f0 f1 f2 f3
      by (simp add: ymd2ord_def days_before_month_def DAYS_BEFORE_MONTH_def)
    with ymax r(3) have "y \<le> 9999" by simp
    with r o leap show ?thesis
      by (simp add: valid_date_def days_in_month_def DAYS_IN_MONTH_def)
  next
    case normal
    obtain m0 d0 where md: "month_day (e = 3 \<and> (c \<noteq> 24 \<or> b = 3)) r4 = (m0, d0)"
      by (cases "month_day (e = 3 \<and> (c \<noteq> 24 \<or> b = 3)) r4")
    from assms(3) unf normal md
    have r: "y = 400 * a + 100 * b + 4 * c + e + 1" "m = m0" "d = d0"
      by simp_all
    have dby: "days_before_year y = 146097 * a + 36524 * b + 1461 * c + 365 * e"
      unfolding r using normal cb by (intro dby_decomp) simp_all
    have leap: "is_leap y \<longleftrightarrow> e = 3 \<and> (c \<noteq> 24 \<or> b = 3)"
      unfolding r using normal cb by (intro is_leap_decomp) simp_all
    from month_day_correct [OF f4(2) md] r(2,3) leap
    have mc: "1 \<le> m" "m \<le> 12" "1 \<le> d" "d \<le> days_in_month y m"
      "days_before_month y m + d = r4 + 1"
      by (simp_all add: days_in_month_def days_before_month_def)
    have o: "ymd2ord y m d = n"
      using dby mc(5) f0 f1 f2 f3 f4 by (simp add: ymd2ord_def)
    with ymax mc(3) have "y \<le> 9999" by simp
    with mc o r(1) show ?thesis by (simp add: valid_date_def)
  qed
qed


lemma digit_cases:
  "n < (10::nat) \<Longrightarrow>
     n = 0 \<or> n = 1 \<or> n = 2 \<or> n = 3 \<or> n = 4 \<or> n = 5 \<or> n = 6 \<or> n = 7 \<or> n = 8 \<or> n = 9"
  by arith

lemma of_char_digit:
  assumes "n < 10"
  shows "of_char (digit_char n) = (48 + n :: nat)"
  using digit_cases [OF assms] by (elim disjE) (simp_all add: digit_char_def)

lemma digit_char_less: "a < 10 \<Longrightarrow> b < 10 \<Longrightarrow> digit_char a < digit_char b \<longleftrightarrow> a < b"
  by (simp add: less_char_def of_char_digit)

lemma digit_char_eq: "a < 10 \<Longrightarrow> b < 10 \<Longrightarrow> digit_char a = digit_char b \<longleftrightarrow> a = b"
proof
  assume "a < 10" "b < 10" "digit_char a = digit_char b"
  then have "(of_char (digit_char a) :: nat) = of_char (digit_char b)" by simp
  with \<open>a < 10\<close> \<open>b < 10\<close> show "a = b" by (simp add: of_char_digit)
qed simp

lemma is_digit_digit_char:
  assumes "n < 10"
  shows "is_digit (digit_char n)"
  using digit_cases [OF assms] by (elim disjE) (simp_all add: digit_char_def is_digit_def)

lemma digit_val_digit_char: "n < 10 \<Longrightarrow> digit_val (digit_char n) = n"
  by (simp add: digit_val_def of_char_digit)

lemma length_pad [simp]: "length (pad w n) = w"
  by (induction w arbitrary: n) simp_all

lemma pad_zero: "pad w 0 = replicate w CHR ''0''"
  by (induction w) (simp_all add: digit_char_def replicate_append_same)

lemma zfill_snoc: "zfill (Suc w) (s @ [c]) = zfill w s @ [c]"
  by (simp add: zfill_def)

lemma fmt_d_pad: "0 < w \<Longrightarrow> n < 10 ^ w \<Longrightarrow> fmt_d w n = pad w n"
proof (induction w arbitrary: n)
  case 0
  then show ?case by simp
next
  case (Suc w)
  show ?case
  proof (cases "n < 10")
    case True
    then have "str_nat n = [digit_char n]" by (simp add: str_nat.simps)
    with True show ?thesis
      by (simp add: fmt_d_def zfill_def pad_zero)
  next
    case False
    then have s: "str_nat n = str_nat (n div 10) @ [digit_char (n mod 10)]"
      by (subst str_nat.simps) simp
    from False Suc.prems have w: "0 < w" by (cases w) simp_all
    from Suc.prems have "n div 10 < 10 ^ w"
      by (simp add: less_mult_imp_div_less)
    with Suc.IH w have "fmt_d w (n div 10) = pad w (n div 10)" by simp
    then show ?thesis
      by (simp add: fmt_d_def s zfill_snoc)
  qed
qed

lemma less_append_same_length:
  fixes u u' v v' :: "'a::linorder list"
  assumes "length u = length u'"
  shows "u @ v < u' @ v' \<longleftrightarrow> u < u' \<or> (u = u' \<and> v < v')"
  using assms by (induction u u' rule: list_induct2) auto

lemma radix_less:
  fixes q q' r r' k :: nat
  assumes "r < k" "r' < k"
  shows "q * k + r < q' * k + r' \<longleftrightarrow> q < q' \<or> (q = q' \<and> r < r')"
proof (cases q q' rule: linorder_cases)
  case less
  then have "Suc q * k \<le> q' * k" by (intro mult_le_mono1) simp
  with assms less show ?thesis by simp
next
  case equal
  then show ?thesis by simp
next
  case greater
  then have "Suc q' * k \<le> q * k" by (intro mult_le_mono1) simp
  with assms greater show ?thesis by simp
qed

lemma radix_eq:
  fixes q q' r r' k :: nat
  assumes "r < k" "r' < k"
  shows "q * k + r = q' * k + r' \<longleftrightarrow> q = q' \<and> r = r'"
  using radix_less [OF assms, of q q'] radix_less [OF assms(2,1), of q' q] by auto

lemma div_mod_less_iff:
  "(a::nat) < b \<longleftrightarrow> a div 10 < b div 10 \<or> (a div 10 = b div 10 \<and> a mod 10 < b mod 10)"
  using radix_less [of "a mod 10" 10 "b mod 10" "a div 10" "b div 10"] by simp

lemma div_mod_eq_iff:
  "(a::nat) = b \<longleftrightarrow> a div 10 = b div 10 \<and> a mod 10 = b mod 10"
  using radix_eq [of "a mod 10" 10 "b mod 10" "a div 10" "b div 10"] by simp

lemma pad_eq_iff: "a < 10 ^ w \<Longrightarrow> b < 10 ^ w \<Longrightarrow> pad w a = pad w b \<longleftrightarrow> a = b"
proof (induction w arbitrary: a b)
  case 0
  then show ?case by simp
next
  case (Suc w)
  from Suc.prems have "a div 10 < 10 ^ w" "b div 10 < 10 ^ w"
    by (simp_all add: less_mult_imp_div_less)
  with Suc.IH have "pad w (a div 10) = pad w (b div 10) \<longleftrightarrow> a div 10 = b div 10" by simp
  then show ?case
    by (simp add: digit_char_eq) (metis div_mod_eq_iff)
qed

lemma pad_less_iff: "a < 10 ^ w \<Longrightarrow> b < 10 ^ w \<Longrightarrow> pad w a < pad w b \<longleftrightarrow> a < b"
proof (induction w arbitrary: a b)
  case 0
  then show ?case by simp
next
  case (Suc w)
  from Suc.prems have b: "a div 10 < 10 ^ w" "b div 10 < 10 ^ w"
    by (simp_all add: less_mult_imp_div_less)
  with Suc.IH have l: "pad w (a div 10) < pad w (b div 10) \<longleftrightarrow> a div 10 < b div 10" by simp
  from b have e: "pad w (a div 10) = pad w (b div 10) \<longleftrightarrow> a div 10 = b div 10"
    by (rule pad_eq_iff)
  show ?case
    by (simp add: less_append_same_length l e digit_char_less) (metis div_mod_less_iff)
qed

lemma days_in_month_le: "1 \<le> m \<Longrightarrow> m \<le> 12 \<Longrightarrow> days_in_month y m \<le> 31"
proof -
  assume a: "1 \<le> m" "m \<le> 12"
  from month_cases [OF a] show ?thesis
    by (elim disjE) (simp_all add: days_in_month_def DAYS_IN_MONTH_def)
qed

lemma isoformat_pad:
  assumes "valid_datetime dt"
  shows "isoformat dt =
           pad 4 (year dt) @ ''-'' @ pad 2 (month dt) @ ''-'' @ pad 2 (day dt) @ ''T'' @
           pad 2 (hour dt) @ '':'' @ pad 2 (minute dt) @ '':'' @ pad 2 (second dt) @
           frac (microsecond dt)"
proof -
  from assms have v: "year dt \<le> 9999" "1 \<le> month dt" "month dt \<le> 12"
    "day dt \<le> days_in_month (year dt) (month dt)"
    "hour dt < 24" "minute dt < 60" "second dt < 60" "microsecond dt < 1000000"
    by (simp_all add: valid_datetime_def valid_date_def)
  from v(2,3) have "days_in_month (year dt) (month dt) \<le> 31" by (rule days_in_month_le)
  with v(4) have d: "day dt \<le> 31" by simp
  have "fmt_d 4 (year dt) = pad 4 (year dt)" using v(1) by (intro fmt_d_pad) simp_all
  moreover have "fmt_d 2 (month dt) = pad 2 (month dt)" using v(3) by (intro fmt_d_pad) simp_all
  moreover have "fmt_d 2 (day dt) = pad 2 (day dt)" using d by (intro fmt_d_pad) simp_all
  moreover have "fmt_d 2 (hour dt) = pad 2 (hour dt)" using v(5) by (intro fmt_d_pad) simp_all
  moreover have "fmt_d 2 (minute dt) = pad 2 (minute dt)"
    using v(6) by (intro fmt_d_pad) simp_all
  moreover have "fmt_d 2 (second dt) = pad 2 (second dt)"
    using v(7) by (intro fmt_d_pad) simp_all
  moreover have "fmt_d 6 (microsecond dt) = pad 6 (microsecond dt)"
    using v(8) by (intro fmt_d_pad) simp_all
  ultimately show ?thesis by (simp add: isoformat_def frac_def)
qed

lemma frac_less_iff:
  assumes "a < 1000000" "b < 1000000"
  shows "frac a < frac b \<longleftrightarrow> a < b"
proof -
  have "pad 6 a < pad 6 b \<longleftrightarrow> a < b" using assms by (intro pad_less_iff) simp_all
  then show ?thesis by (auto simp: frac_def)
qed

lemma sep_less: "c # u < c # v \<longleftrightarrow> u < v" for c :: char
  by simp

lemma isoformat_less_iff:
  assumes "valid_datetime a" "valid_datetime b"
  shows "isoformat a < isoformat b \<longleftrightarrow> dt_less a b"
proof -
  have d31: "day x \<le> 31" if "valid_datetime x" for x
  proof -
    from that have "1 \<le> month x" "month x \<le> 12" "day x \<le> days_in_month (year x) (month x)"
      by (simp_all add: valid_datetime_def valid_date_def)
    with days_in_month_le [of "month x" "year x"] show ?thesis by simp
  qed
  have v: "year x < 10 ^ 4" "month x < 10 ^ 2" "day x < 10 ^ 2" "hour x < 10 ^ 2"
    "minute x < 10 ^ 2" "second x < 10 ^ 2" "microsecond x < 1000000"
    if "valid_datetime x" for x
    using that d31 [OF that] by (simp_all add: valid_datetime_def valid_date_def)
  note va = v [OF assms(1)] and vb = v [OF assms(2)]
  have y: "pad 4 (year a) < pad 4 (year b) \<longleftrightarrow> year a < year b"
    "pad 4 (year a) = pad 4 (year b) \<longleftrightarrow> year a = year b"
    using va(1) vb(1) by (rule pad_less_iff pad_eq_iff)+
  have m: "pad 2 (month a) < pad 2 (month b) \<longleftrightarrow> month a < month b"
    "pad 2 (month a) = pad 2 (month b) \<longleftrightarrow> month a = month b"
    using va(2) vb(2) by (rule pad_less_iff pad_eq_iff)+
  have d: "pad 2 (day a) < pad 2 (day b) \<longleftrightarrow> day a < day b"
    "pad 2 (day a) = pad 2 (day b) \<longleftrightarrow> day a = day b"
    using va(3) vb(3) by (rule pad_less_iff pad_eq_iff)+
  have h: "pad 2 (hour a) < pad 2 (hour b) \<longleftrightarrow> hour a < hour b"
    "pad 2 (hour a) = pad 2 (hour b) \<longleftrightarrow> hour a = hour b"
    using va(4) vb(4) by (rule pad_less_iff pad_eq_iff)+
  have mi: "pad 2 (minute a) < pad 2 (minute b) \<longleftrightarrow> minute a < minute b"
    "pad 2 (minute a) = pad 2 (minute b) \<longleftrightarrow> minute a = minute b"
    using va(5) vb(5) by (rule pad_less_iff pad_eq_iff)+
  have s: "pad 2 (second a) < pad 2 (second b) \<longleftrightarrow> second a < second b"
    "pad 2 (second a) = pad 2 (second b) \<longleftrightarrow> second a = second b"
    using va(6) vb(6) by (rule pad_less_iff pad_eq_iff)+
  have f: "frac (microsecond a) < frac (microsecond b) \<longleftrightarrow> microsecond a < microsecond b"
    using va(7) vb(7) by (rule frac_less_iff)
  show ?thesis
    unfolding isoformat_pad [OF assms(1)] isoformat_pad [OF assms(2)] dt_less_def
    by (simp only: less_append_same_length length_pad append_Cons append_Nil sep_less
          y m d h mi s f)
qed

lemma date_tri_nat: "(x::nat) = y \<longleftrightarrow> \<not> x < y \<and> \<not> y < x"
  by auto

lemma date_less_tri:
  "\<not> date_less (y, m, d) (y', m', d') \<and> \<not> date_less (y', m', d') (y, m, d) \<longleftrightarrow>
     y = y' \<and> m = m' \<and> d = d'"
  by (auto simp: date_less_def)

lemma to_us_less_iff:
  assumes "valid_datetime a" "valid_datetime b"
  shows "to_us a < to_us b \<longleftrightarrow> dt_less a b"
proof -
  let ?oa = "ymd2ord (year a) (month a) (day a)"
  let ?ob = "ymd2ord (year b) (month b) (day b)"
  from assms have va: "valid_date (year a) (month a) (day a)"
    and vb: "valid_date (year b) (month b) (day b)"
    and t: "hour a < 24" "minute a < 60" "second a < 60" "microsecond a < 1000000"
      "hour b < 24" "minute b < 60" "second b < 60" "microsecond b < 1000000"
    by (simp_all add: valid_datetime_def)
  have ol: "?oa < ?ob \<longleftrightarrow> date_less (year a, month a, day a) (year b, month b, day b)"
    using va vb by (rule ymd2ord_less_iff)
  have ol': "?ob < ?oa \<longleftrightarrow> date_less (year b, month b, day b) (year a, month a, day a)"
    using vb va by (rule ymd2ord_less_iff)
  have "?oa = ?ob \<longleftrightarrow> \<not> ?oa < ?ob \<and> \<not> ?ob < ?oa" by (rule date_tri_nat)
  also have "\<dots> \<longleftrightarrow> year a = year b \<and> month a = month b \<and> day a = day b"
    unfolding ol ol' by (rule date_less_tri)
  finally have oe: "?oa = ?ob \<longleftrightarrow> year a = year b \<and> month a = month b \<and> day a = day b" .
  define a3 where "a3 = ?oa * 24 + hour a"
  define b3 where "b3 = ?ob * 24 + hour b"
  define a2 where "a2 = a3 * 60 + minute a"
  define b2 where "b2 = b3 * 60 + minute b"
  define a1 where "a1 = a2 * 60 + second a"
  define b1 where "b1 = b2 * 60 + second b"
  have l3: "a3 < b3 \<longleftrightarrow> ?oa < ?ob \<or> (?oa = ?ob \<and> hour a < hour b)"
    and e3: "a3 = b3 \<longleftrightarrow> ?oa = ?ob \<and> hour a = hour b"
    unfolding a3_def b3_def using t(1,5) by (rule radix_less radix_eq)+
  have l2: "a2 < b2 \<longleftrightarrow> a3 < b3 \<or> (a3 = b3 \<and> minute a < minute b)"
    and e2: "a2 = b2 \<longleftrightarrow> a3 = b3 \<and> minute a = minute b"
    unfolding a2_def b2_def using t(2,6) by (rule radix_less radix_eq)+
  have l1: "a1 < b1 \<longleftrightarrow> a2 < b2 \<or> (a2 = b2 \<and> second a < second b)"
    and e1: "a1 = b1 \<longleftrightarrow> a2 = b2 \<and> second a = second b"
    unfolding a1_def b1_def using t(3,7) by (rule radix_less radix_eq)+
  have l0: "a1 * 1000000 + microsecond a < b1 * 1000000 + microsecond b \<longleftrightarrow>
              a1 < b1 \<or> (a1 = b1 \<and> microsecond a < microsecond b)"
    using t(4,8) by (rule radix_less)
  have "to_us a < to_us b \<longleftrightarrow>
          a1 * 1000000 + microsecond a < b1 * 1000000 + microsecond b"
    unfolding to_us_def a1_def a2_def a3_def b1_def b2_def b3_def
    by (simp only: of_nat_less_iff)
  also have "\<dots> \<longleftrightarrow> dt_less a b"
    unfolding l0 l1 e1 l2 e2 l3 e3 ol oe dt_less_def date_less_def prod.case
    by blast
  finally show ?thesis .
qed

lemma isoformat_less_to_us:
  assumes "valid_datetime a" "valid_datetime b"
  shows "isoformat a < isoformat b \<longleftrightarrow> to_us a < to_us b"
  using isoformat_less_iff [OF assms] to_us_less_iff [OF assms] by simp

lemma list_all_digit_pad: "list_all is_digit (pad w n)"
  by (induction w arbitrary: n) (simp_all add: is_digit_digit_char)

lemma foldl_pad:
  "n < 10 ^ w \<Longrightarrow> foldl (\<lambda>a c. 10 * a + digit_val c) 0 (pad w n) = n"
proof (induction w arbitrary: n)
  case 0
  then show ?case by simp
next
  case (Suc w)
  from Suc.prems have "n div 10 < 10 ^ w" by (simp add: less_mult_imp_div_less)
  with Suc.IH have "foldl (\<lambda>a c. 10 * a + digit_val c) 0 (pad w (n div 10)) = n div 10"
    by simp
  then show ?case by (simp add: digit_val_digit_char)
qed

lemma read_nat_pad: "0 < w \<Longrightarrow> n < 10 ^ w \<Longrightarrow> read_nat (pad w n) = Some n"
proof -
  assume w: "0 < w" and n: "n < 10 ^ w"
  from w have "pad w n \<noteq> []" by (cases w) simp_all
  with n show ?thesis by (simp add: read_nat_def list_all_digit_pad foldl_pad)
qed

lemma iso_layout:
  fixes F :: string
  assumes "length Y = 4" "length M = 2" "length D = 2" "length H = 2" "length MI = 2"
    "length S = 2"
  defines "s \<equiv> Y @ ''-'' @ M @ ''-'' @ D @ ''T'' @ H @ '':'' @ MI @ '':'' @ S @ F"
  shows "length s = 19 + length F" "s ! 4 = CHR ''-''" "s ! 7 = CHR ''-''"
    "s ! 10 = CHR ''T''" "s ! 13 = CHR '':''" "s ! 16 = CHR '':''"
    "take 4 s = Y" "take 2 (drop 5 s) = M" "take 2 (drop 8 s) = D" "take 2 (drop 11 s) = H"
    "take 2 (drop 14 s) = MI" "take 2 (drop 17 s) = S" "s ! 19 = F ! 0"
    "drop 20 s = drop 1 F"
  using assms(1-6) unfolding s_def by (simp_all add: nth_append)

lemma parse_isoformat_isoformat:
  assumes "valid_datetime dt"
  shows "parse_isoformat (isoformat dt) = Some dt"
proof -
  have d31: "day dt \<le> 31"
  proof -
    from assms have "1 \<le> month dt" "month dt \<le> 12"
      "day dt \<le> days_in_month (year dt) (month dt)"
      by (simp_all add: valid_datetime_def valid_date_def)
    with days_in_month_le [of "month dt" "year dt"] show ?thesis by simp
  qed
  have v: "year dt < 10 ^ 4" "month dt < 10 ^ 2" "day dt < 10 ^ 2" "hour dt < 10 ^ 2"
    "minute dt < 10 ^ 2" "second dt < 10 ^ 2" "microsecond dt < 10 ^ 6"
    using assms d31 by (simp_all add: valid_datetime_def valid_date_def)
  note r = read_nat_pad [OF _ v(1)] read_nat_pad [OF _ v(2)] read_nat_pad [OF _ v(3)]
    read_nat_pad [OF _ v(4)] read_nat_pad [OF _ v(5)] read_nat_pad [OF _ v(6)]
    read_nat_pad [OF _ v(7)]
  note l = iso_layout [of "pad 4 (year dt)" "pad 2 (month dt)" "pad 2 (day dt)"
      "pad 2 (hour dt)" "pad 2 (minute dt)" "pad 2 (second dt)" "frac (microsecond dt)",
      OF length_pad length_pad length_pad length_pad length_pad length_pad]
  have f: "length (frac (microsecond dt)) = (if microsecond dt = 0 then 0 else 7)"
    "microsecond dt \<noteq> 0 \<Longrightarrow> frac (microsecond dt) ! 0 = CHR ''.''"
    "microsecond dt \<noteq> 0 \<Longrightarrow> drop 1 (frac (microsecond dt)) = pad 6 (microsecond dt)"
    by (simp_all add: frac_def)
  have dt_eq: "\<lparr>year = year dt, month = month dt, day = day dt, hour = hour dt,
                 minute = minute dt, second = second dt, microsecond = us\<rparr> = dt"
    if "us = microsecond dt" for us
    using that by simp
  show ?thesis
  proof (cases "microsecond dt = 0")
    case True
    then have "frac (microsecond dt) = []" by (simp add: frac_def)
    with True show ?thesis
      unfolding parse_isoformat_def isoformat_pad [OF assms] l
      using assms by (simp add: r dt_eq Let_def)
  next
    case False
    with f have "length (frac (microsecond dt)) = 7" "frac (microsecond dt) ! 0 = CHR ''.''"
      "drop 1 (frac (microsecond dt)) = pad 6 (microsecond dt)" by simp_all
    then show ?thesis
      unfolding parse_isoformat_def isoformat_pad [OF assms] l
      using assms by (simp add: r dt_eq Let_def)
  qed
qed

lemma ymd2ord_bounds:
  assumes "valid_date y m d"
  shows "1 \<le> ymd2ord y m d" "ymd2ord y m d \<le> MAXORDINAL"
proof -
  from assms show "1 \<le> ymd2ord y m d" by (simp add: valid_date_def ymd2ord_def)
  have last: "valid_date 9999 12 31"
    by (simp add: valid_date_def days_in_month_def DAYS_IN_MONTH_def)
  have ord: "ymd2ord 9999 12 31 = MAXORDINAL"
    by (simp add: dt_defs)
  from assms have "year_le": "y \<le> 9999" "m \<le> 12" "d \<le> days_in_month y m" "1 \<le> m"
    by (simp_all add: valid_date_def)
  with days_in_month_le [of m y] have "d \<le> 31" by simp
  with year_le have "(y, m, d) = (9999, 12, 31) \<or> date_less (y, m, d) (9999, 12, 31)"
    by (auto simp: date_less_def)
  then show "ymd2ord y m d \<le> MAXORDINAL"
  proof
    assume "(y, m, d) = (9999, 12, 31)"
    with ord show ?thesis by simp
  next
    assume "date_less (y, m, d) (9999, 12, 31)"
    with assms last have "ymd2ord y m d < ymd2ord 9999 12 31" by (rule ymd2ord_mono)
    with ord show ?thesis by simp
  qed
qed

lemma to_us_split:
  "to_us dt = int (ymd2ord (year dt) (month dt) (day dt)) * 86400000000 + int (time_of_day_us dt)"
  by (simp add: to_us_def time_of_day_us_def algebra_simps)

lemma time_of_day_us_less:
  assumes "valid_datetime dt"
  shows "time_of_day_us dt < 86400000000"
proof -
  from assms have "hour dt \<le> 23" "minute dt \<le> 59" "second dt \<le> 59" "microsecond dt \<le> 999999"
    by (simp_all add: valid_datetime_def)
  then have "((hour dt * 60 + minute dt) * 60 + second dt) * 1000000 + microsecond dt
               \<le> ((23 * 60 + 59) * 60 + 59) * 1000000 + 999999"
    by (intro add_mono mult_le_mono) simp_all
  then show ?thesis by (simp add: time_of_day_us_def)
qed

lemma sub_timedelta_Inr:
  assumes "sub_timedelta dt td = Inr c"
  shows "valid_datetime c \<and> to_us c = to_us dt - td"
proof -
  define total where "total = to_us dt - td"
  define days where "days = total div 86400000000"
  define rest where "rest = nat (total mod 86400000000)"
  define secs where "secs = rest div 1000000"
  define us where "us = rest mod 1000000"
  define h where "h = secs div 3600"
  define rem where "rem = secs mod 3600"
  define mi where "mi = rem div 60"
  define s where "s = rem mod 60"
  have unf: "sub_timedelta dt td =
      (if 0 < days \<and> days \<le> int MAXORDINAL
       then (case ord2ymd (nat days) of (y, m, d) \<Rightarrow>
               Inr \<lparr>year = y, month = m, day = d, hour = h, minute = mi, second = s,
                    microsecond = us\<rparr>)
       else Inl OverflowError)"
    unfolding sub_timedelta_def Let_def s_def mi_def rem_def h_def us_def secs_def rest_def
      days_def total_def
    by (rule refl)
  from assms unf have dr: "0 < days" "days \<le> int MAXORDINAL"
    by (simp_all split: if_splits)
  obtain y m d where o: "ord2ymd (nat days) = (y, m, d)" by (cases "ord2ymd (nat days)")
  from assms unf dr o
  have c: "c = \<lparr>year = y, month = m, day = d, hour = h, minute = mi, second = s,
                 microsecond = us\<rparr>"
    by simp
  from dr have "1 \<le> nat days" "nat days \<le> MAXORDINAL" by simp_all
  from ord2ymd_correct [OF this o] have vd: "valid_date y m d" and od: "ymd2ord y m d = nat days"
    by simp_all
  have t: "total = days * 86400000000 + int rest" "rest < 86400000000"
    by (simp_all add: days_def rest_def)
  have r: "rest = secs * 1000000 + us" "us < 1000000" by (simp_all add: secs_def us_def)
  have sc: "secs = h * 3600 + rem" "rem < 3600" by (simp_all add: h_def rem_def)
  have rm: "rem = mi * 60 + s" "s < 60" by (simp_all add: mi_def s_def)
  from t r sc rm have b: "h < 24" "mi < 60" by simp_all
  with vd r rm have v: "valid_datetime c" by (simp add: c valid_datetime_def)
  have "to_us c = int (nat days) * 86400000000 + int rest"
    unfolding to_us_split by (simp add: c od time_of_day_us_def r sc rm)
  with dr t have "to_us c = total" by simp
  with v show ?thesis by (simp add: total_def)
qed

lemma sub_timedelta_ok:
  assumes "valid_datetime dt" "2 \<le> year dt" "0 \<le> td" "td \<le> 86400000000"
  shows "\<exists>c. sub_timedelta dt td = Inr c"
proof -
  define n where "n = ymd2ord (year dt) (month dt) (day dt)"
  define total where "total = to_us dt - td"
  define days where "days = total div 86400000000"
  define r where "r = total mod 86400000000"
  from assms(1) have vd: "valid_date (year dt) (month dt) (day dt)"
    by (simp add: valid_datetime_def)
  have "days_before_year 2 \<le> days_before_year (year dt)" using assms(2) by (rule dby_mono)
  moreover have "days_before_year 2 = 365" by (simp add: days_before_year_def)
  ultimately have n1: "366 \<le> n" using vd by (simp add: n_def ymd2ord_def valid_date_def)
  have n2: "n \<le> MAXORDINAL" unfolding n_def using vd by (rule ymd2ord_bounds)
  have tod: "time_of_day_us dt < 86400000000" using assms(1) by (rule time_of_day_us_less)
  have lo: "(int n - 1) * 86400000000 \<le> total"
    unfolding total_def to_us_split n_def [symmetric] using assms(4) by simp
  have hi: "total < (int n + 1) * 86400000000"
    unfolding total_def to_us_split n_def [symmetric] using assms(3) tod by simp
  have t: "total = days * 86400000000 + r" "0 \<le> r" "r < 86400000000"
    by (simp_all add: days_def r_def)
  from lo hi t have "int n - 1 \<le> days" "days \<le> int n" by simp_all
  with n1 n2 have "0 < days \<and> days \<le> int MAXORDINAL" by simp
  then show ?thesis
    unfolding sub_timedelta_def Let_def days_def total_def
    by (simp split: prod.splits)
qed

section \<open>Properties of the rate limiter and of the classifier client\<close>

lemmas check_defs = check_rate_limits_def retained_requests_def interval_not_met_def
  hour_requests_def save_rate_data_def set_requests_def load_rate_data_def timedelta_days_def
  timedelta_hours_def timedelta_minutes_def total_seconds_def sub_datetime_def

lemma example_accepts:
  "check_rate_limits default_config example_world =
     \<lparr>answer = Inr True, requests = [''2024-01-02T00:01:00''],
      ledger_after = Holds (JObj [(''requests'', JArr [JStr ''2024-01-02T00:01:00''])]),
      writes = 1\<rparr>"
  by (simp add: example_world_def example_now_def default_config_def check_defs dt_defs)

subsection \<open>The retry loop\<close>



text \<open>
  C9. For the empty digest the classifier returns at once a result with severity
  \<open>''error''\<close> and \<open>issues_found\<close> true; it calls the backend zero times, checks the rate
  limit zero times, sleeps never and leaves the rate-limit file as it was.
\<close>

theorem analyze_with_ai_empty_input:
  "\<exists>result.
     returned (analyze_with_ai cfg w []) = Inr result \<and>
     map_of result ''severity'' = Some (JStr ''error'') \<and>
     map_of result ''issues_found'' = Some (JBool True) \<and>
     backend_calls (analyze_with_ai cfg w []) = 0 \<and>
     rate_checks (analyze_with_ai cfg w []) = 0 \<and>
     slept (analyze_with_ai cfg w []) = [] \<and>
     ledger_end (analyze_with_ai cfg w []) = ledger w"
  by (simp add: analyze_with_ai_def no_input_result_def)



lemma map_of_dict_set: "map_of (dict_set d k v) k = Some v"
  by (induction d) auto

lemma py_getitem_Inr:
  assumes "py_getitem v k = Inr x"
  obtains kvs where "v = JObj kvs" "map_of kvs k = Some x"
  using assms by (cases v) (auto split: option.splits)

lemma retained_requests_JObj:
  assumes "retained_requests w = Inr (rate_data, kept)"
  obtains kvs where "rate_data = JObj kvs"
proof -
  from assms obtain x where "py_getitem rate_data ''requests'' = Inr x"
    by (auto simp: retained_requests_def Let_def split: sum.splits)
  then show ?thesis using that by (rule py_getitem_Inr)
qed

lemma ledger_entries_set_requests:
  "ledger_entries (Holds (set_requests (JObj kvs) reqs)) = map JStr reqs"
  by (simp add: ledger_entries_def load_rate_data_def set_requests_def map_of_dict_set)

lemma example_denies:
  "check_rate_limits default_config (example_world\<lparr>ledger := Holds example_ledger\<rparr>) =
     \<lparr>answer = Inr False, requests = [''2024-01-01T23:59:00''],
      ledger_after = Holds example_ledger, writes = 0\<rparr>"
  by (simp add: example_world_def example_now_def example_ledger_def default_config_def
        check_defs dt_defs)

text \<open>
  C2. Whatever the rate-limit file holds: when the check answers with a denial, the file
  is as it was and no write was attempted; when it answers with an acceptance, the list
  in memory is the retained requests followed by exactly one new entry, the current time,
  the file was written once before the answer, and a save that works leaves a file whose
  entries are that list.
\<close>

theorem check_rate_limits_effect:
  "(answer (check_rate_limits cfg w) = Inr False \<longrightarrow>
      ledger_after (check_rate_limits cfg w) = ledger w \<and>
      writes (check_rate_limits cfg w) = 0) \<and>
   (answer (check_rate_limits cfg w) = Inr True \<longrightarrow>
      (\<exists>rate_data kept.
         retained_requests w = Inr (rate_data, kept) \<and>
         requests (check_rate_limits cfg w) = kept @ [isoformat (now w)] \<and>
         writes (check_rate_limits cfg w) = 1 \<and>
         ledger_after (check_rate_limits cfg w) =
           save_rate_data w (set_requests rate_data (kept @ [isoformat (now w)])) \<and>
         (save w = Saved \<longrightarrow>
            ledger_entries (ledger_after (check_rate_limits cfg w)) =
              map JStr (kept @ [isoformat (now w)]))))"
proof -
  have denial: "ledger_after (check_rate_limits cfg w) = ledger w \<and>
                writes (check_rate_limits cfg w) = 0"
    if "answer (check_rate_limits cfg w) = Inr False"
    using that
    by (auto simp: check_rate_limits_def Let_def
             split: sum.splits prod.splits bool.splits if_splits)
  have acceptance: "\<exists>rate_data kept.
         retained_requests w = Inr (rate_data, kept) \<and>
         requests (check_rate_limits cfg w) = kept @ [isoformat (now w)] \<and>
         writes (check_rate_limits cfg w) = 1 \<and>
         ledger_after (check_rate_limits cfg w) =
           save_rate_data w (set_requests rate_data (kept @ [isoformat (now w)])) \<and>
         (save w = Saved \<longrightarrow>
            ledger_entries (ledger_after (check_rate_limits cfg w)) =
              map JStr (kept @ [isoformat (now w)]))"
    if a: "answer (check_rate_limits cfg w) = Inr True"
  proof -
    from a obtain rate_data kept where r: "retained_requests w = Inr (rate_data, kept)"
      by (cases "retained_requests w") (auto simp: check_rate_limits_def)
    from r obtain kvs where k: "rate_data = JObj kvs" by (rule retained_requests_JObj)
    let ?reqs = "kept @ [isoformat (now w)]"
    from a r have c: "check_rate_limits cfg w =
        \<lparr>answer = Inr True, requests = ?reqs,
         ledger_after = save_rate_data w (set_requests rate_data ?reqs), writes = 1\<rparr>"
      by (auto simp: check_rate_limits_def Let_def split: sum.splits bool.splits if_splits)
    have "save w = Saved \<longrightarrow>
            ledger_entries (save_rate_data w (set_requests rate_data ?reqs)) = map JStr ?reqs"
      by (simp add: save_rate_data_def k ledger_entries_set_requests)
    with r c show ?thesis by simp
  qed
  from denial acceptance show ?thesis by blast
qed

theorem check_rate_limits_effect_witness:
  "answer (check_rate_limits default_config (example_world\<lparr>ledger := Holds example_ledger\<rparr>))
     = Inr False \<and>
   ledger_after (check_rate_limits default_config
     (example_world\<lparr>ledger := Holds example_ledger\<rparr>)) = Holds example_ledger \<and>
   writes (check_rate_limits default_config
     (example_world\<lparr>ledger := Holds example_ledger\<rparr>)) = 0 \<and>
   answer (check_rate_limits default_config example_world) = Inr True \<and>
   save example_world = Saved \<and>
   writes (check_rate_limits default_config example_world) = 1 \<and>
   ledger_entries (ledger_after (check_rate_limits default_config example_world)) =
     [JStr ''2024-01-02T00:01:00'']"
proof -
  let ?w = "example_world\<lparr>ledger := Holds example_ledger\<rparr>"
  have d: "answer (check_rate_limits default_config ?w) = Inr False"
    by (simp add: example_denies)
  have a: "answer (check_rate_limits default_config example_world) = Inr True"
    by (simp add: example_accepts)
  have s: "save example_world = Saved" by (simp add: example_world_def)
  have r: "requests (check_rate_limits default_config example_world) =
             [''2024-01-02T00:01:00'']"
    by (simp add: example_accepts)
  from check_rate_limits_effect [of default_config ?w] d
  have 1: "ledger_after (check_rate_limits default_config ?w) = Holds example_ledger \<and>
           writes (check_rate_limits default_config ?w) = 0"
    by simp
  from check_rate_limits_effect [of default_config example_world] a s r
  have 2: "writes (check_rate_limits default_config example_world) = 1 \<and>
           ledger_entries (ledger_after (check_rate_limits default_config example_world)) =
             [JStr ''2024-01-02T00:01:00'']"
    by auto
  from d a s 1 2 show ?thesis by simp
qed

lemma check_rate_limits_no_file_as_empty:
  assumes "f = Missing \<or> f = Unreadable"
  shows "answer (check_rate_limits cfg (w\<lparr>ledger := f\<rparr>)) =
           answer (check_rate_limits cfg
                     (w\<lparr>ledger := Holds (JObj [(''requests'', JArr [])])\<rparr>)) \<and>
         requests (check_rate_limits cfg (w\<lparr>ledger := f\<rparr>)) =
           requests (check_rate_limits cfg
                       (w\<lparr>ledger := Holds (JObj [(''requests'', JArr [])])\<rparr>))"
  using assms
  by (auto simp: check_rate_limits_def retained_requests_def load_rate_data_def
        interval_not_met_def hour_requests_def Let_def split: sum.splits)

text \<open>
  C7, at a file that holds the JSON document \<open>{}\<close>: the check raises \<open>KeyError\<close>, where
  without a file, or with a file that cannot be read, it answers as for an empty history.
\<close>

theorem check_rate_limits_malformed_ledger:
  "answer (check_rate_limits default_config (example_world\<lparr>ledger := Holds (JObj [])\<rparr>)) =
     Inl KeyError \<and>
   answer (check_rate_limits default_config (example_world\<lparr>ledger := Missing\<rparr>)) = Inr True \<and>
   answer (check_rate_limits default_config (example_world\<lparr>ledger := Unreadable\<rparr>)) = Inr True"
  by (simp add: example_world_def example_now_def default_config_def check_defs dt_defs)

text \<open>
  C1, at a digest that is not empty and a rate-limit file that holds the JSON document
  \<open>{}\<close>: the \<open>KeyError\<close> of the rate-limit check escapes from the classifier, which
  returns no result.
\<close>

theorem analyze_with_ai_raises:
  "returned (analyze_with_ai default_config (example_world\<lparr>ledger := Holds (JObj [])\<rparr>)
     ''disk usage 92%'') = Inl KeyError"
  by (simp add: analyze_with_ai_def example_world_def example_now_def default_config_def
        check_defs dt_defs)

lemma keep_newer_strs: "keep_newer c (map JStr ss) = Inr (filter (\<lambda>s. c < s) ss)"
  by (induction ss) simp_all

lemma keep_newer_newer:
  "keep_newer c items = Inr kept \<Longrightarrow> \<forall>s \<in> set kept. c < s"
  by (induction c items arbitrary: kept rule: keep_newer.induct)
     (auto split: sum.splits if_splits)

lemma cutoff_exists:
  assumes "clock_ok t" "0 \<le> td" "td \<le> 86400000000"
  obtains c where "sub_timedelta t td = Inr c" "valid_datetime c" "to_us c = to_us t - td"
proof -
  from assms obtain c where c: "sub_timedelta t td = Inr c"
    using sub_timedelta_ok [of t td] by (auto simp: clock_ok_def)
  with sub_timedelta_Inr [OF c] that show ?thesis by simp
qed

lemma retained_requests_well_formed:
  assumes "ledger w = Holds (JObj kvs)"
    and "map_of kvs ''requests'' = Some (JArr (map JStr ss))"
    and "sub_timedelta (now w) (timedelta_days 1) = Inr c"
  shows "retained_requests w = Inr (JObj kvs, filter (\<lambda>s. isoformat c < s) ss)"
  using assms by (simp add: retained_requests_def load_rate_data_def keep_newer_strs)

lemma retained_requests_newer:
  assumes "retained_requests w = Inr (rate_data, kept)"
    and "sub_timedelta (now w) (timedelta_days 1) = Inr c"
  shows "\<forall>s \<in> set kept. isoformat c < s"
  using assms
  by (auto simp: retained_requests_def Let_def split: sum.splits dest: keep_newer_newer)

lemma fromisoformat_isoformat:
  "valid_datetime t \<Longrightarrow> fromisoformat other (isoformat t) = Inr t"
  by (simp add: fromisoformat_def parse_isoformat_isoformat)

lemma minutes_less_iff:
  "total_seconds d / 60 < of_int m \<longleftrightarrow> d < timedelta_minutes m"
proof -
  have "total_seconds d / 60 = of_int d / 60000000" by (simp add: total_seconds_def)
  also have "\<dots> < of_int m \<longleftrightarrow> (of_int d :: rat) < of_int m * 60000000"
    by (simp add: pos_divide_less_eq)
  also have "\<dots> \<longleftrightarrow> (of_int d :: rat) < of_int (m * 60000000)" by simp
  also have "\<dots> \<longleftrightarrow> d < m * 60000000" by (rule of_int_less_iff)
  finally show ?thesis by (simp add: timedelta_minutes_def)
qed

lemma interval_not_met_last:
  assumes "valid_datetime t"
  shows "interval_not_met cfg w (xs @ [isoformat t]) =
           Inr (sub_datetime (now w) t < timedelta_minutes (min_interval_minutes cfg))"
proof -
  from assms have "interval_not_met cfg w (xs @ [isoformat t]) =
      Inr (total_seconds (sub_datetime (now w) t) / 60 < of_int (min_interval_minutes cfg))"
    by (simp add: interval_not_met_def fromisoformat_isoformat Let_def)
  then show ?thesis by (simp only: minutes_less_iff)
qed





lemma example_stale_text: "isoformat example_stale = ''2024-01-01T00:00:00''"
  by (simp add: example_stale_def dt_defs)

lemma example_recent_text: "isoformat example_recent = ''2024-01-01T23:59:00''"
  by (simp add: example_recent_def dt_defs)




lemma list_all_is_str: "list_all is_str xs \<Longrightarrow> \<exists>ss. xs = map JStr ss"
proof (induction xs)
  case Nil
  then show ?case by simp
next
  case (Cons x xs)
  then obtain ss where "xs = map JStr ss" by auto
  moreover from Cons.prems obtain s where "x = JStr s" by (cases x) simp_all
  ultimately have "x # xs = map JStr (s # ss)" by simp
  then show ?case by (rule exI)
qed

lemma well_formed_ledger_Holds:
  assumes "well_formed_ledger (Holds v)"
  obtains kvs ss where "v = JObj kvs" "map_of kvs ''requests'' = Some (JArr (map JStr ss))"
proof -
  from assms obtain xs where x: "py_getitem v ''requests'' = Inr (JArr xs)" "list_all is_str xs"
    by (auto simp: well_formed_ledger_def split: sum.splits json.splits)
  from x(1) obtain kvs where k: "v = JObj kvs" "map_of kvs ''requests'' = Some (JArr xs)"
    by (rule py_getitem_Inr)
  from x(2) obtain ss where "xs = map JStr ss" using list_all_is_str by blast
  with k that show ?thesis by simp
qed

lemma well_formed_ledger_set_requests:
  "well_formed_ledger (Holds (set_requests (JObj kvs) reqs))"
  by (simp add: well_formed_ledger_def set_requests_def map_of_dict_set list_all_iff)

lemma retained_requests_shorter:
  assumes "well_formed_ledger (ledger w)" "retained_requests w = Inr (rate_data, kept)"
  shows "length kept \<le> length (ledger_entries (ledger w))"
proof (cases "ledger w")
  case (Holds v)
  with assms(1) obtain kvs ss where v: "v = JObj kvs"
    "map_of kvs ''requests'' = Some (JArr (map JStr ss))"
    using well_formed_ledger_Holds by metis
  from assms(2) obtain c where c: "sub_timedelta (now w) (timedelta_days 1) = Inr c"
    by (auto simp: retained_requests_def Let_def split: sum.splits)
  from Holds v have l: "ledger w = Holds (JObj kvs)" by simp
  from retained_requests_well_formed [OF l v(2) c] assms(2)
  have "kept = filter (\<lambda>s. isoformat c < s) ss" by simp
  moreover have "ledger_entries (ledger w) = map JStr ss"
    by (simp add: l v(2) ledger_entries_def load_rate_data_def)
  ultimately show ?thesis by simp
next
  case Missing
  with assms(2) show ?thesis
    by (auto simp: retained_requests_def load_rate_data_def Let_def split: sum.splits)
next
  case Unreadable
  with assms(2) show ?thesis
    by (auto simp: retained_requests_def load_rate_data_def Let_def split: sum.splits)
qed

lemma check_rate_limits_not_accepted:
  assumes "answer (check_rate_limits cfg w) \<noteq> Inr True"
  shows "ledger_after (check_rate_limits cfg w) = ledger w"
  using assms
  by (auto simp: check_rate_limits_def Let_def
           split: sum.splits prod.splits bool.splits if_splits)

lemma check_rate_limits_accepted_file:
  assumes "answer (check_rate_limits cfg w) = Inr True"
  obtains kvs kept where "retained_requests w = Inr (JObj kvs, kept)"
    "requests (check_rate_limits cfg w) = kept @ [isoformat (now w)]"
    "ledger_after (check_rate_limits cfg w) =
       save_rate_data w (set_requests (JObj kvs) (kept @ [isoformat (now w)]))"
proof -
  from assms obtain rate_data kept where r: "retained_requests w = Inr (rate_data, kept)"
    by (cases "retained_requests w") (auto simp: check_rate_limits_def)
  from r obtain kvs where k: "rate_data = JObj kvs" by (rule retained_requests_JObj)
  from assms r have "check_rate_limits cfg w =
      \<lparr>answer = Inr True, requests = kept @ [isoformat (now w)],
       ledger_after = save_rate_data w (set_requests rate_data (kept @ [isoformat (now w)])),
       writes = 1\<rparr>"
    by (auto simp: check_rate_limits_def Let_def split: sum.splits bool.splits if_splits)
  with r k that show ?thesis by simp
qed

lemma check_rate_limits_step:
  assumes "well_formed_ledger (ledger w)"
  shows "well_formed_ledger (ledger_after (check_rate_limits cfg w)) \<and>
         length (ledger_entries (ledger_after (check_rate_limits cfg w))) \<le>
           length (ledger_entries (ledger w)) +
           (if answer (check_rate_limits cfg w) = Inr True then 1 else 0)"
proof (cases "answer (check_rate_limits cfg w) = Inr True")
  case False
  then have "ledger_after (check_rate_limits cfg w) = ledger w"
    by (rule check_rate_limits_not_accepted)
  with assms False show ?thesis by simp
next
  case True
  then obtain kvs kept where r: "retained_requests w = Inr (JObj kvs, kept)"
    and f: "ledger_after (check_rate_limits cfg w) =
              save_rate_data w (set_requests (JObj kvs) (kept @ [isoformat (now w)]))"
    by (rule check_rate_limits_accepted_file)
  from assms r have k: "length kept \<le> length (ledger_entries (ledger w))"
    by (rule retained_requests_shorter)
  show ?thesis
  proof (cases "save w")
    case Saved
    with f k True show ?thesis
      by (simp add: save_rate_data_def well_formed_ledger_set_requests
            ledger_entries_set_requests)
  next
    case NotOpened
    with f assms True show ?thesis by (simp add: save_rate_data_def)
  next
    case Interrupted
    with f True show ?thesis
      by (simp add: save_rate_data_def well_formed_ledger_def ledger_entries_def
            load_rate_data_def)
  qed
qed

lemma check_runs_bound:
  assumes "well_formed_ledger (ledger w)"
  shows "length (ledger_entries (fst (check_runs cfg w evs))) \<le>
           length (ledger_entries (ledger w)) + snd (check_runs cfg w evs)"
  using assms
proof (induction evs arbitrary: w)
  case Nil
  then show ?case by simp
next
  case (Cons ev evs)
  obtain t sv where ev: "ev = (t, sv)" by (cases ev)
  let ?w1 = "w\<lparr>now := t, save := sv\<rparr>"
  let ?rc = "check_rate_limits cfg ?w1"
  let ?w2 = "w\<lparr>ledger := ledger_after ?rc\<rparr>"
  from Cons.prems have "well_formed_ledger (ledger ?w1)" by simp
  from check_rate_limits_step [OF this, of cfg]
  have s: "well_formed_ledger (ledger ?w2)"
    "length (ledger_entries (ledger ?w2)) \<le>
       length (ledger_entries (ledger w)) + (if answer ?rc = Inr True then 1 else 0)"
    by simp_all
  from Cons.IH [OF s(1)] s(2) show ?case
    by (auto simp: ev Let_def split: prod.splits)
qed

lemma requests_within_day:
  assumes "valid_datetime (now w)" "s \<in> set (requests (check_rate_limits cfg w))"
    "valid_datetime t" "s = isoformat t"
  shows "sub_datetime (now w) t < timedelta_days 1"
proof -
  from assms(2) obtain rate_data kept where r: "retained_requests w = Inr (rate_data, kept)"
    by (cases "retained_requests w") (auto simp: check_rate_limits_def)
  from r obtain c where c: "sub_timedelta (now w) (timedelta_days 1) = Inr c"
    by (auto simp: retained_requests_def Let_def split: sum.splits)
  from sub_timedelta_Inr [OF c] have vc: "valid_datetime c"
    and tc: "to_us c = to_us (now w) - timedelta_days 1" by simp_all
  from r have "requests (check_rate_limits cfg w) = kept \<or>
               requests (check_rate_limits cfg w) = kept @ [isoformat (now w)]"
    by (auto simp: check_rate_limits_def Let_def split: sum.splits bool.splits if_splits)
  with assms(2) have "s \<in> set kept \<or> s = isoformat (now w)" by auto
  then have "isoformat c < s"
  proof
    assume "s \<in> set kept"
    with retained_requests_newer [OF r c] show ?thesis by simp
  next
    assume "s = isoformat (now w)"
    moreover from tc have "to_us c < to_us (now w)" by (simp add: timedelta_days_def)
    ultimately show ?thesis using vc assms(1) by (simp add: isoformat_less_to_us)
  qed
  with assms(3,4) vc have "to_us c < to_us t" by (simp add: isoformat_less_to_us)
  with tc show ?thesis by (simp add: sub_datetime_def)
qed

text \<open>
  C8, as the code has it. After an evaluation, every timestamp in the list of requests
  that the check holds in memory is less than 24 hours older than the evaluation time, and
  after an acceptance with a save that works the file's entries are exactly that list. The
  file is written on acceptance only. Over any sequence of evaluations that starts from a
  well-formed file, the file never gains more entries than evaluations were accepted:
  starting from an empty history, after \<open>N\<close> acceptances it holds at most \<open>N\<close> entries.
\<close>

theorem ledger_retention:
  "(valid_datetime (now w) \<and> s \<in> set (requests (check_rate_limits cfg w)) \<and>
    valid_datetime t \<and> s = isoformat t \<longrightarrow>
      sub_datetime (now w) t < timedelta_days 1) \<and>
   (answer (check_rate_limits cfg w) = Inr True \<and> save w = Saved \<longrightarrow>
      ledger_entries (ledger_after (check_rate_limits cfg w)) =
        map JStr (requests (check_rate_limits cfg w))) \<and>
   (answer (check_rate_limits cfg w) \<noteq> Inr True \<longrightarrow>
      ledger_after (check_rate_limits cfg w) = ledger w) \<and>
   (well_formed_ledger (ledger w) \<longrightarrow>
      length (ledger_entries (fst (check_runs cfg w evs))) \<le>
        length (ledger_entries (ledger w)) + snd (check_runs cfg w evs))"
proof (intro conjI impI)
  assume "valid_datetime (now w) \<and> s \<in> set (requests (check_rate_limits cfg w)) \<and>
          valid_datetime t \<and> s = isoformat t"
  then have "valid_datetime (now w)" "s \<in> set (requests (check_rate_limits cfg w))"
    "valid_datetime t" "s = isoformat t"
    by blast+
  then show "sub_datetime (now w) t < timedelta_days 1"
    by (rule requests_within_day)
next
  assume a: "answer (check_rate_limits cfg w) = Inr True \<and> save w = Saved"
  then have "answer (check_rate_limits cfg w) = Inr True" by simp
  then obtain kvs kept where
    "requests (check_rate_limits cfg w) = kept @ [isoformat (now w)]"
    "ledger_after (check_rate_limits cfg w) =
       save_rate_data w (set_requests (JObj kvs) (kept @ [isoformat (now w)]))"
    by (rule check_rate_limits_accepted_file)
  with a show "ledger_entries (ledger_after (check_rate_limits cfg w)) =
                 map JStr (requests (check_rate_limits cfg w))"
    by (simp add: save_rate_data_def ledger_entries_set_requests)
next
  assume "answer (check_rate_limits cfg w) \<noteq> Inr True"
  then show "ledger_after (check_rate_limits cfg w) = ledger w"
    by (rule check_rate_limits_not_accepted)
next
  assume "well_formed_ledger (ledger w)"
  then show "length (ledger_entries (fst (check_runs cfg w evs))) \<le>
               length (ledger_entries (ledger w)) + snd (check_runs cfg w evs)"
    by (rule check_runs_bound)
qed


lemma example_runs_result:
  "check_runs default_config example_world example_runs =
     (Holds (JObj [(''requests'',
        JArr [JStr ''2024-01-02T00:01:00'', JStr ''2024-01-02T00:30:00''])]), 2)"
  by (simp add: example_runs_def example_world_def example_now_def default_config_def
        check_defs dt_defs)

theorem ledger_retention_witness:
  "valid_datetime (now (example_world\<lparr>ledger := Holds example_ledger\<rparr>)) \<and>
   isoformat example_recent \<in>
     set (requests (check_rate_limits default_config
                      (example_world\<lparr>ledger := Holds example_ledger\<rparr>))) \<and>
   valid_datetime example_recent \<and>
   sub_datetime (now (example_world\<lparr>ledger := Holds example_ledger\<rparr>)) example_recent
     < timedelta_days 1 \<and>
   answer (check_rate_limits default_config
             (example_world\<lparr>ledger := Holds example_ledger\<rparr>)) \<noteq> Inr True \<and>
   ledger_after (check_rate_limits default_config
                   (example_world\<lparr>ledger := Holds example_ledger\<rparr>)) =
     Holds example_ledger \<and>
   answer (check_rate_limits default_config example_world) = Inr True \<and>
   save example_world = Saved \<and>
   ledger_entries (ledger_after (check_rate_limits default_config example_world)) =
     [JStr ''2024-01-02T00:01:00''] \<and>
   well_formed_ledger (ledger example_world) \<and>
   snd (check_runs default_config example_world example_runs) = 2 \<and>
   length (ledger_entries (fst (check_runs default_config example_world example_runs))) \<le> 2"
proof -
  let ?w = "example_world\<lparr>ledger := Holds example_ledger\<rparr>"
  have v: "valid_datetime (now ?w)"
    by (simp add: example_world_def example_now_def dt_defs)
  have m: "isoformat example_recent \<in> set (requests (check_rate_limits default_config ?w))"
    by (simp add: example_denies example_recent_text)
  have vr: "valid_datetime example_recent" by (simp add: example_recent_def dt_defs)
  have d: "answer (check_rate_limits default_config ?w) \<noteq> Inr True"
    by (simp add: example_denies)
  have a: "answer (check_rate_limits default_config example_world) = Inr True"
    by (simp add: example_accepts)
  have sv: "save example_world = Saved" by (simp add: example_world_def)
  have wf: "well_formed_ledger (ledger example_world)"
    by (simp add: example_world_def well_formed_ledger_def)
  have n: "snd (check_runs default_config example_world example_runs) = 2"
    by (simp add: example_runs_result)
  have e: "ledger_entries (ledger example_world) = []"
    by (simp add: example_world_def ledger_entries_def load_rate_data_def)
  from ledger_retention
    [of ?w "isoformat example_recent" default_config example_recent example_runs] v m vr d
  have 1: "sub_datetime (now ?w) example_recent < timedelta_days 1"
    and 2: "ledger_after (check_rate_limits default_config ?w) = Holds example_ledger"
    by simp_all
  from ledger_retention
    [of example_world "isoformat example_recent" default_config example_recent example_runs]
    a sv wf n e
  have 3: "ledger_entries (ledger_after (check_rate_limits default_config example_world)) =
             [JStr ''2024-01-02T00:01:00'']"
    and 4: "length (ledger_entries (fst (check_runs default_config example_world
              example_runs))) \<le> 2"
    by (simp_all add: example_accepts)
  from v m vr 1 d 2 a sv 3 wf n 4 show ?thesis by blast
qed

text \<open>
  C8 as stated fails after a denial: the file is left as it was and still holds an entry
  that is more than 24 hours older than the evaluation time.
\<close>

theorem ledger_retention_counterexample:
  "answer (check_rate_limits default_config
             (example_world\<lparr>ledger := Holds example_ledger\<rparr>)) = Inr False \<and>
   ledger_entries (ledger_after (check_rate_limits default_config
                                   (example_world\<lparr>ledger := Holds example_ledger\<rparr>))) =
     [JStr (isoformat example_stale), JStr (isoformat example_recent)] \<and>
   valid_datetime example_stale \<and>
   timedelta_days 1 <
     sub_datetime (now (example_world\<lparr>ledger := Holds example_ledger\<rparr>)) example_stale"
proof -
  let ?w = "example_world\<lparr>ledger := Holds example_ledger\<rparr>"
  have "ledger_entries (Holds example_ledger) =
          [JStr (isoformat example_stale), JStr (isoformat example_recent)]"
    by (simp add: example_stale_text example_recent_text ledger_entries_def
          load_rate_data_def example_ledger_def)
  moreover have "valid_datetime example_stale"
    by (simp add: example_stale_def dt_defs)
  moreover have "timedelta_days 1 < sub_datetime (now ?w) example_stale"
    by (simp add: example_world_def example_now_def example_stale_def sub_datetime_def
          timedelta_days_def dt_defs)
  ultimately show ?thesis by (simp add: example_denies)
qed

subsection \<open>Which exceptions can escape\<close>

text \<open>
  With a file that the check wrote itself (or none, or an unreadable one) and a clock
  reading after year 1, the check answers. The classifier lets escape only what the check
  lets escape, and the \<open>ValueError\<close> of sleeping for a negative delay.
\<close>

lemma api_attempts_escaped:
  "api_attempts cfg call attempts last_error = (Escaped e, calls, sleeps) \<Longrightarrow>
     e = ValueError \<and> retry_delay_seconds cfg < 0"
proof (induction attempts arbitrary: last_error calls sleeps)
  case Nil
  then show ?case by simp
next
  case (Cons i rest)
  have neg: "retry_delay_seconds cfg < 0" if "retry_delay_seconds cfg * 2 ^ i < 0"
    using that by (simp add: mult_less_0_iff)
  from Cons.prems Cons.IH neg show ?case
    by (auto simp: Let_def split: sum.splits if_splits prod.splits)
qed

lemma check_rate_limits_answers:
  assumes "clock_ok (now w)"
    and "ledger w = Missing \<or> ledger w = Unreadable \<or>
         (ledger w = Holds (JObj kvs) \<and>
          map_of kvs ''requests'' = Some (JArr (map JStr (map isoformat ts))) \<and>
          (\<forall>t \<in> set ts. valid_datetime t))"
  shows "\<exists>b. answer (check_rate_limits cfg w) = Inr b"
proof -
  obtain c where c: "sub_timedelta (now w) (timedelta_days 1) = Inr c"
    using cutoff_exists [OF assms(1), of "timedelta_days 1"]
    by (auto simp: timedelta_days_def)
  obtain h where h: "sub_timedelta (now w) (timedelta_hours 1) = Inr h"
    using cutoff_exists [OF assms(1), of "timedelta_hours 1"]
    by (auto simp: timedelta_hours_def)
  have "\<exists>rate_data us. retained_requests w = Inr (rate_data, map isoformat us) \<and>
          (\<forall>t \<in> set us. valid_datetime t)"
    using assms(2)
  proof (elim disjE conjE)
    assume "ledger w = Missing"
    with c have "retained_requests w = Inr (JObj [(''requests'', JArr [])], map isoformat [])"
      by (simp add: retained_requests_def load_rate_data_def)
    then show ?thesis by (intro exI [of _ "[]"] exI conjI) simp_all
  next
    assume "ledger w = Unreadable"
    with c have "retained_requests w = Inr (JObj [(''requests'', JArr [])], map isoformat [])"
      by (simp add: retained_requests_def load_rate_data_def)
    then show ?thesis by (intro exI [of _ "[]"] exI conjI) simp_all
  next
    assume l: "ledger w = Holds (JObj kvs)"
      and m: "map_of kvs ''requests'' = Some (JArr (map JStr (map isoformat ts)))"
      and v: "\<forall>t \<in> set ts. valid_datetime t"
    from retained_requests_well_formed [OF l m c]
    have "retained_requests w =
            Inr (JObj kvs, map isoformat (filter (\<lambda>t. isoformat c < isoformat t) ts))"
      by (simp add: filter_map comp_def)
    with v show ?thesis
      by (intro exI [of _ "filter (\<lambda>t. isoformat c < isoformat t) ts"] exI conjI) simp_all
  qed
  then obtain rate_data us where r: "retained_requests w = Inr (rate_data, map isoformat us)"
    and v: "\<forall>t \<in> set us. valid_datetime t"
    by blast
  have "\<exists>b. interval_not_met cfg w (map isoformat us) = Inr b"
  proof (cases us rule: rev_cases)
    case Nil
    then show ?thesis by (auto simp: interval_not_met_def)
  next
    case (snoc vs t)
    with v have "valid_datetime t" by simp
    from interval_not_met_last [OF this, of cfg w "map isoformat vs"] snoc
    show ?thesis by simp
  qed
  then obtain b where i: "interval_not_met cfg w (map isoformat us) = Inr b" ..
  show ?thesis
    by (cases b)
       (auto simp: check_rate_limits_def r i hour_requests_def h Let_def)
qed

lemma analyze_with_ai_escapes:
  assumes "returned (analyze_with_ai cfg w log_content) = Inl e"
  shows "answer (check_rate_limits cfg w) = Inl e \<or>
         (e = ValueError \<and> retry_delay_seconds cfg < 0)"
proof (cases "log_content = []")
  case True
  with assms show ?thesis by (simp add: analyze_with_ai_def)
next
  case False
  show ?thesis
  proof (cases "answer (check_rate_limits cfg w)")
    case (Inl x)
    with assms False show ?thesis by (simp add: analyze_with_ai_def)
  next
    case (Inr b)
    obtain x calls sleeps where
      a: "api_attempts cfg (backend w (take 8000 log_content)) [0..<nat (max_retries cfg)] None
            = (x, calls, sleeps)"
      by (cases "api_attempts cfg (backend w (take 8000 log_content))
                   [0..<nat (max_retries cfg)] None")
    from assms False Inr a have "b \<and> x = Escaped e"
      by (cases b; cases x) (simp_all add: analyze_with_ai_def)
    with a api_attempts_escaped [of cfg "backend w (take 8000 log_content)"
        "[0..<nat (max_retries cfg)]" None e calls sleeps]
    show ?thesis by simp
  qed
qed

lemma analyze_with_ai_returns:
  assumes "clock_ok (now w)"
    and "ledger w = Missing \<or> ledger w = Unreadable \<or>
         (ledger w = Holds (JObj kvs) \<and>
          map_of kvs ''requests'' = Some (JArr (map JStr (map isoformat ts))) \<and>
          (\<forall>t \<in> set ts. valid_datetime t))"
    and "0 \<le> retry_delay_seconds cfg"
  shows "\<exists>result. returned (analyze_with_ai cfg w log_content) = Inr result"
proof (cases "returned (analyze_with_ai cfg w log_content)")
  case (Inl e)
  from analyze_with_ai_escapes [OF Inl] assms(3)
  have "answer (check_rate_limits cfg w) = Inl e" by simp
  with check_rate_limits_answers [OF assms(1,2), of cfg] show ?thesis by simp
next
  case (Inr result)
  then show ?thesis by simp
qed

end
